theory Spec2Isabelle
  imports Complex_Main "HOL-Library.AList" "HOL-Library.Sublist"
begin

section \<open>Python values\<close>

text \<open>
  The two modules embedded here are \<^verbatim>\<open>.trae/skills/swarm-orchestrator/orchestrator.py\<close>
  and \<^verbatim>\<open>.trae/skills/workflow-runner/workflow_runner.py\<close>. Both define a class
  \<^verbatim>\<open>SwarmOrchestrator\<close>; where the two classes use one name for different code, the
  function of \<^verbatim>\<open>workflow_runner.py\<close> carries the suffix \<open>_wr\<close>.

  An exception that a Python expression of the source can raise is a value: a function
  that can raise returns \<open>py_error + 'a\<close>, with \<open>Inl\<close> for the exception.
\<close>

datatype py_error =
    KeyError | IndexError | ValueError | ZeroDivisionError
  | JSONDecodeError | AttributeError | TypeError | UnicodeEncodeError | OSError

definition bind_err :: "py_error + 'a \<Rightarrow> ('a \<Rightarrow> py_error + 'b) \<Rightarrow> py_error + 'b" where
  "bind_err r f = (case r of Inl e \<Rightarrow> Inl e | Inr v \<Rightarrow> f v)"

text \<open>
  A Python \<^verbatim>\<open>str\<close> is a sequence of Unicode code points. Identifiers and status
  words of the source are ASCII and are modelled as \<open>string\<close>; texts that hold Chinese
  characters (the request, the keywords, the descriptions) are lists of code points.
  The test \<^verbatim>\<open>kw in s\<close> on strings is the contiguous-sublist test.
\<close>

type_synonym ustr = "nat list"

definition py_in :: "ustr \<Rightarrow> ustr \<Rightarrow> bool" where
  "py_in kw s = sublist kw s"

text \<open>
  A \<^verbatim>\<open>dict\<close> is an association list in insertion order whose keys are distinct
  (\<open>is_dict\<close>). \<^verbatim>\<open>d[k]\<close> raises \<^verbatim>\<open>KeyError\<close> on a missing key; \<^verbatim>\<open>d[k] = v\<close>
  overwrites in place or appends, which is what \<open>AList.update\<close> does.
\<close>

definition is_dict :: "('k \<times> 'v) list \<Rightarrow> bool" where
  "is_dict d = distinct (map fst d)"

definition py_getitem :: "('k \<times> 'v) list \<Rightarrow> 'k \<Rightarrow> py_error + 'v" where
  "py_getitem d k = (case map_of d k of None \<Rightarrow> Inl KeyError | Some v \<Rightarrow> Inr v)"

definition py_setitem :: "('k \<times> 'v) list \<Rightarrow> 'k \<Rightarrow> 'v \<Rightarrow> ('k \<times> 'v) list" where
  "py_setitem d k v = AList.update k v d"


text \<open>
  The values that \<^verbatim>\<open>json.load\<close> returns. A string value is its list of code points;
  the key of an object is kept as the bytes of its UTF-8 encoding, which for the keys
  that the source looks up (\<^verbatim>\<open>status\<close>, \<^verbatim>\<open>output\<close>, \<^verbatim>\<open>summary\<close>) are the ASCII
  characters; keys are only ever compared for equality. A float is the real number it
  denotes. \<^verbatim>\<open>x.get(k, default)\<close> exists on a dictionary only: on every other value
  the attribute lookup raises \<^verbatim>\<open>AttributeError\<close>.
\<close>

datatype json =
    JNull
  | JBool bool
  | JInt int
  | JFloat real
  | JStr ustr
  | JList "json list"
  | JDict "(string \<times> json) list"

definition json_get :: "json \<Rightarrow> string \<Rightarrow> json \<Rightarrow> py_error + json" where
  "json_get x k dflt =
     (case x of
        JDict d \<Rightarrow> (case map_of d k of None \<Rightarrow> Inr dflt | Some v \<Rightarrow> Inr v)
      | _ \<Rightarrow> Inl AttributeError)"

text \<open>
  A Python value that is handed to \<^verbatim>\<open>json.dump\<close>: either one that the encoder can
  write, given by the JSON value that reading the file back yields, or one on which the
  dump raises (\<^verbatim>\<open>TypeError\<close> for an object such as a \<^verbatim>\<open>datetime\<close> or a \<^verbatim>\<open>set\<close>,
  \<^verbatim>\<open>UnicodeEncodeError\<close> for a string with a lone surrogate, \<^verbatim>\<open>ValueError\<close> for a
  circular container), given by that exception.
\<close>

datatype pyval = Json json | Unserialisable py_error

section \<open>orchestrator.py: the data model\<close>

text \<open>
  The dataclass \<^verbatim>\<open>SubTask\<close>. The two free-form dictionaries \<^verbatim>\<open>input_data\<close> and
  \<^verbatim>\<open>expected_output\<close> are opaque to every function below.
\<close>

record SubTask =
  task_id :: string
  description :: ustr
  worker_type :: string
  dependencies :: "string list"
  priority :: string
  status :: string
  worker_id :: "string option"
  created_at :: "string option"
  started_at :: "string option"
  completed_at :: "string option"
  result_file :: "string option"
  error :: "string option"
  input_data :: "(string \<times> string) list"
  expected_output :: "(string \<times> string) list"

text \<open>
  The constructor call \<^verbatim>\<open>SubTask(task_id=.., description=.., worker_type=..,
  dependencies=.., priority=..)\<close> followed by \<^verbatim>\<open>__post_init__\<close>; \<open>now\<close> is what
  \<^verbatim>\<open>datetime.now().isoformat()\<close> returns at that moment.
\<close>

definition new_SubTask :: "string \<Rightarrow> string \<Rightarrow> ustr \<Rightarrow> string \<Rightarrow> string list \<Rightarrow> string \<Rightarrow> SubTask" where
  "new_SubTask now tid desc wtype deps prio =
     \<lparr>task_id = tid, description = desc, worker_type = wtype, dependencies = deps,
      priority = prio, status = ''pending'', worker_id = None, created_at = Some now,
      started_at = None, completed_at = None, result_file = None, error = None,
      input_data = [], expected_output = []\<rparr>"

text \<open>
  The dataclass \<^verbatim>\<open>TaskAnalysis\<close>. The field \<^verbatim>\<open>reasoning\<close> is an f-string built
  from the complexity score and the task type; the model keeps the two values it is
  formatted from.
\<close>

record TaskAnalysis =
  core_goal :: ustr
  task_type :: string
  complexity :: string
  swarm_mode :: bool
  reasoning :: "int \<times> string"

section \<open>orchestrator.py: analyze_task\<close>

definition keywords_complex :: "ustr list" where
  "keywords_complex =
     [[0x7CFB, 0x7EDF], [0x67B6, 0x6784], [0x91CD, 0x6784], [0x5F00, 0x53D1], [0x5B9E, 0x73B0],
      [0x96C6, 0x6210], [0x90E8, 0x7F72], [0x6D4B, 0x8BD5, 0x5957, 0x4EF6],
      [0x6587, 0x6863, 0x7CFB, 0x7EDF]]"

definition keywords_simple :: "ustr list" where
  "keywords_simple =
     [[0x4FEE, 0x6539], [0x4FEE, 0x590D], [0x4F18, 0x5316], [0x6DFB, 0x52A0], [0x66F4, 0x65B0]]"

text \<open>The two \<^verbatim>\<open>for kw in ...\<close> loops that add 2, then 1, for each keyword present.\<close>

definition complexity_score :: "ustr \<Rightarrow> int" where
  "complexity_score user_request =
     fold (\<lambda>kw score. if py_in kw user_request then score + 1 else score) keywords_simple
       (fold (\<lambda>kw score. if py_in kw user_request then score + 2 else score) keywords_complex 0)"

text \<open>The parallelism hint terms of the \<^verbatim>\<open>medium\<close> branch.\<close>

definition parallel_hint :: "ustr \<Rightarrow> bool" where
  "parallel_hint user_request =
     (py_in [0x5E76, 0x884C] user_request \<or> py_in [0x540C, 0x65F6] user_request)"

definition classify_task_type :: "ustr \<Rightarrow> string" where
  "classify_task_type user_request =
     (if py_in [0x6D4B, 0x8BD5] user_request then ''test''
      else if py_in [0x6587, 0x6863] user_request then ''docs''
      else if py_in [0x8C03, 0x7814] user_request \<or> py_in [0x7814, 0x7A76] user_request
        then ''research''
      else if py_in [0x91CD, 0x6784] user_request then ''refactor''
      else ''development'')"

definition analyze_task :: "ustr \<Rightarrow> TaskAnalysis" where
  "analyze_task user_request =
     (let score = complexity_score user_request;
          (cplx, swarm) =
            (if score \<ge> 4 then (''complex'', True)
             else if score \<ge> 2 then (''medium'', parallel_hint user_request)
             else (''simple'', False));
          ttype = classify_task_type user_request
      in \<lparr>core_goal = user_request, task_type = ttype, complexity = cplx,
          swarm_mode = swarm, reasoning = (score, ttype)\<rparr>)"

section \<open>orchestrator.py: decompose_task\<close>

text \<open>
  \<^verbatim>\<open>tasks[i]\<close> on a list raises \<^verbatim>\<open>IndexError\<close> out of range (the indices used by
  the source are not negative).
\<close>

definition task_at :: "SubTask list \<Rightarrow> nat \<Rightarrow> py_error + SubTask" where
  "task_at ts i = (if i < length ts then Inr (ts ! i) else Inl IndexError)"

text \<open>
  \<^verbatim>\<open>decompose_task\<close> first binds \<^verbatim>\<open>tasks = []\<close> and then, in the branch of the task
  type, rebinds \<^verbatim>\<open>tasks\<close> to a list display whose elements mention \<^verbatim>\<open>tasks\<close>. Python
  evaluates the whole display before it rebinds the name, so every \<^verbatim>\<open>tasks\<close> inside
  the display is still the empty list; the model writes that list as \<open>tasks0\<close> and keeps
  each guard and each index expression of the source.

  \<open>ids k\<close> is the result of the \<open>k\<close>-th call of \<^verbatim>\<open>_generate_task_id\<close> (a random
  UUID prefix) and \<open>clock k\<close> the time stamp of the \<open>k\<close>-th constructed task.
\<close>

definition decompose_task :: "(nat \<Rightarrow> string) \<Rightarrow> (nat \<Rightarrow> string) \<Rightarrow> TaskAnalysis \<Rightarrow> py_error + SubTask list" where
  "decompose_task ids clock analysis =
     (let tasks0 = ([] :: SubTask list) in
      if task_type analysis = ''development'' then
        bind_err (if tasks0 \<noteq> [] then bind_err (task_at tasks0 0) (\<lambda>t. Inr [task_id t]) else Inr []) (\<lambda>d1.
        bind_err (if length tasks0 > 1 then bind_err (task_at tasks0 1) (\<lambda>t. Inr [task_id t]) else Inr []) (\<lambda>d2.
        bind_err (if length tasks0 > 2 then bind_err (task_at tasks0 2) (\<lambda>t. Inr [task_id t]) else Inr []) (\<lambda>d3.
        bind_err (if length tasks0 > 2 then bind_err (task_at tasks0 2) (\<lambda>t. Inr [task_id t]) else Inr []) (\<lambda>d4.
        bind_err (if length tasks0 > 3 then Inr (map task_id (take 2 (drop 2 tasks0))) else Inr []) (\<lambda>d5.
        Inr [new_SubTask (clock 0) (ids 0)
               [0x8C03, 0x7814, 0x6280, 0x672F, 0x65B9, 0x6848, 0x548C, 0x6700, 0x4F73, 0x5B9E, 0x8DF5]
               ''researcher'' [] ''high'',
             new_SubTask (clock 1) (ids 1)
               [0x8BBE, 0x8BA1, 0x7CFB, 0x7EDF, 0x67B6, 0x6784, 0x548C, 0x6570, 0x636E, 0x6A21, 0x578B]
               ''coder'' d1 ''high'',
             new_SubTask (clock 2) (ids 2)
               [0x5B9E, 0x73B0, 0x6838, 0x5FC3, 0x529F, 0x80FD, 0x4EE3, 0x7801]
               ''coder'' d2 ''high'',
             new_SubTask (clock 3) (ids 3)
               [0x7F16, 0x5199, 0x5355, 0x5143, 0x6D4B, 0x8BD5, 0x548C, 0x96C6, 0x6210, 0x6D4B, 0x8BD5]
               ''tester'' d3 ''medium'',
             new_SubTask (clock 4) (ids 4)
               [0x7F16, 0x5199, 0x20, 0x41, 0x50, 0x49, 0x20, 0x6587, 0x6863, 0x548C, 0x4F7F, 0x7528, 0x8BF4, 0x660E]
               ''writer'' d4 ''medium'',
             new_SubTask (clock 5) (ids 5)
               [0x4EE3, 0x7801, 0x5BA1, 0x67E5, 0x548C, 0x8D28, 0x91CF, 0x68C0, 0x67E5]
               ''reviewer'' d5 ''medium''])))))
      else if task_type analysis = ''refactor'' then
        bind_err (bind_err (task_at tasks0 0) (\<lambda>t. Inr [task_id t])) (\<lambda>d1.
        bind_err (bind_err (task_at tasks0 1) (\<lambda>t. Inr [task_id t])) (\<lambda>d2.
        bind_err (bind_err (task_at tasks0 2) (\<lambda>t. Inr [task_id t])) (\<lambda>d3.
        Inr [new_SubTask (clock 0) (ids 0)
               [0x5206, 0x6790, 0x73B0, 0x6709, 0x4EE3, 0x7801, 0x7ED3, 0x6784]
               ''researcher'' [] ''high'',
             new_SubTask (clock 1) (ids 1)
               [0x8BBE, 0x8BA1, 0x91CD, 0x6784, 0x65B9, 0x6848]
               ''coder'' d1 ''high'',
             new_SubTask (clock 2) (ids 2)
               [0x6267, 0x884C, 0x4EE3, 0x7801, 0x91CD, 0x6784]
               ''coder'' d2 ''high'',
             new_SubTask (clock 3) (ids 3)
               [0x9A8C, 0x8BC1, 0x91CD, 0x6784, 0x7ED3, 0x679C]
               ''tester'' d3 ''medium''])))
      else if task_type analysis = ''test'' then
        bind_err (bind_err (task_at tasks0 0) (\<lambda>t. Inr [task_id t])) (\<lambda>d1.
        bind_err (bind_err (task_at tasks0 1) (\<lambda>t. Inr [task_id t])) (\<lambda>d2.
        Inr [new_SubTask (clock 0) (ids 0)
               [0x5206, 0x6790, 0x6D4B, 0x8BD5, 0x9700, 0x6C42]
               ''researcher'' [] ''high'',
             new_SubTask (clock 1) (ids 1)
               [0x7F16, 0x5199, 0x6D4B, 0x8BD5, 0x7528, 0x4F8B]
               ''tester'' d1 ''high'',
             new_SubTask (clock 2) (ids 2)
               [0x6267, 0x884C, 0x6D4B, 0x8BD5, 0x5E76, 0x751F, 0x6210, 0x62A5, 0x544A]
               ''tester'' d2 ''medium'']))
      else
        Inr [new_SubTask (clock 0) (ids 0)
               ([0x6267, 0x884C, 0x4EFB, 0x52A1, 0x3A, 0x20] @ core_goal analysis)
               ''coder'' [] ''medium''])"

section \<open>orchestrator.py: build_dag and get_execution_order\<close>

definition build_dag :: "SubTask list \<Rightarrow> (string \<times> string list) list" where
  "build_dag tasks = fold (\<lambda>task dag. py_setitem dag (task_id task) (dependencies task)) tasks []"

text \<open>
  \<^verbatim>\<open>ready = [n for n in remaining if in_degree[n] == 0]\<close>. The Python set
  \<^verbatim>\<open>remaining\<close> is a list without duplicates here; the order in which Python iterates
  a set of strings is not fixed by the language, so no theorem below depends on the order
  of the ids inside a level.
\<close>

fun ready_nodes :: "(string \<times> nat) list \<Rightarrow> string list \<Rightarrow> py_error + string list" where
  "ready_nodes in_degree [] = Inr []"
| "ready_nodes in_degree (n # ns) =
     (case py_getitem in_degree n of
        Inl e \<Rightarrow> Inl e
      | Inr k \<Rightarrow> (case ready_nodes in_degree ns of
                    Inl e \<Rightarrow> Inl e
                  | Inr r \<Rightarrow> Inr (if k = 0 then n # r else r)))"

text \<open>
  \<^verbatim>\<open>for node in remaining: in_degree[node] = len([d for d in dag[node] if d in remaining])\<close>;
  the last argument is the part of \<^verbatim>\<open>remaining\<close> still to visit.
\<close>

fun refresh_in_degree ::
  "(string \<times> string list) list \<Rightarrow> string list \<Rightarrow> (string \<times> nat) list \<Rightarrow> string list
     \<Rightarrow> py_error + (string \<times> nat) list" where
  "refresh_in_degree dag remaining in_degree [] = Inr in_degree"
| "refresh_in_degree dag remaining in_degree (node # ns) =
     (case py_getitem dag node of
        Inl e \<Rightarrow> Inl e
      | Inr deps \<Rightarrow>
          refresh_in_degree dag remaining
            (py_setitem in_degree node (length (filter (\<lambda>d. d \<in> set remaining) deps))) ns)"

lemma ready_nodes_subset: "ready_nodes in_degree rem = Inr r \<Longrightarrow> set r \<subseteq> set rem"
  by (induction rem arbitrary: r) (auto split: sum.splits if_splits)

text \<open>The \<^verbatim>\<open>while remaining:\<close> loop, with its \<^verbatim>\<open>break\<close> when nothing is ready.\<close>

function geo_loop ::
  "(string \<times> string list) list \<Rightarrow> (string \<times> nat) list \<Rightarrow> string list \<Rightarrow> string list list
     \<Rightarrow> py_error + string list list" where
  "geo_loop dag in_degree remaining levels =
     (if remaining = [] then Inr levels
      else case ready_nodes in_degree remaining of
        Inl e \<Rightarrow> Inl e
      | Inr ready \<Rightarrow>
          if ready = [] then Inr levels
          else let remaining' = filter (\<lambda>n. n \<notin> set ready) remaining in
            (case refresh_in_degree dag remaining' in_degree remaining' of
               Inl e \<Rightarrow> Inl e
             | Inr in_degree' \<Rightarrow> geo_loop dag in_degree' remaining' (levels @ [ready])))"
  by pat_completeness auto
termination geo_loop
proof (relation "measure (\<lambda>(dag, in_degree, remaining, levels). length remaining)", goal_cases)
  case 1
  then show ?case by simp
next
  case (2 dag in_degree remaining levels ready remaining' in_degree')
  then obtain x where "x \<in> set ready" by (cases ready) auto
  with 2 have "x \<in> set remaining" using ready_nodes_subset by blast
  with \<open>x \<in> set ready\<close> 2 show ?case
    by (auto intro!: length_filter_less)
qed

declare geo_loop.simps [simp del]

text \<open>
  The first loop of the source over \<^verbatim>\<open>dag.items()\<close> only executes \<^verbatim>\<open>pass\<close>; the
  second one sets every in-degree to the number of dependency entries that are keys of
  \<^verbatim>\<open>dag\<close>.
\<close>

definition get_execution_order :: "(string \<times> string list) list \<Rightarrow> py_error + string list list" where
  "get_execution_order dag =
     (let in_degree0 = map (\<lambda>(node, deps). (node, 0::nat)) dag;
          in_degree = fold (\<lambda>(node, deps) m.
                         py_setitem m node (length (filter (\<lambda>d. d \<in> set (map fst dag)) deps)))
                       dag in_degree0;
          remaining = remdups (map fst dag)
      in geo_loop dag in_degree remaining [])"

section \<open>orchestrator.py: the persisted queue\<close>

text \<open>
  The JSON object that \<^verbatim>\<open>create_queue\<close> writes to \<^verbatim>\<open>queue.json\<close>: one entry per
  key, the task map keyed by task id and holding \<^verbatim>\<open>asdict(task)\<close>. The record is
  polymorphic in the representation \<open>'t\<close> of a task's record. For the methods that read
  the fields of a task it is a \<open>SubTask\<close>; for \<^verbatim>\<open>update_task_status\<close>, which writes
  whatever keys and values it is handed, it is a dictionary of JSON values.

  The state of the file is a \<open>queue option\<close>: \<open>None\<close> when the file does not exist, in
  which case \<^verbatim>\<open>read_queue\<close> returns the empty dictionary. Writing the file and reading
  it back (\<^verbatim>\<open>json.dump\<close>, \<^verbatim>\<open>json.load\<close>) is taken to return the object written.
\<close>

record 't queue_of =
  q_version :: string
  q_created_at :: string
  q_main_task_id :: string
  q_tasks :: "(string \<times> 't) list"
  q_dag :: "(string \<times> string list) list"
  q_execution_order :: "string list list"

type_synonym queue = "SubTask queue_of"

text \<open>\<open>None\<close> is the empty dictionary \<^verbatim>\<open>{}\<close> that \<^verbatim>\<open>read_queue\<close> returns for a missing file.\<close>

definition read_queue :: "'t queue_of option \<Rightarrow> 't queue_of option" where
  "read_queue file = file"

text \<open>\<^verbatim>\<open>create_queue\<close> returns the queue data and leaves it in the file.\<close>

definition create_queue ::
  "string \<Rightarrow> string \<Rightarrow> SubTask list \<Rightarrow> (string \<times> string list) list \<Rightarrow> py_error + (queue \<times> queue option)" where
  "create_queue now main_id tasks dag =
     bind_err (get_execution_order dag) (\<lambda>order.
       let queue_data =
         \<lparr>q_version = ''1.0'', q_created_at = now, q_main_task_id = main_id,
          q_tasks = fold (\<lambda>task m. py_setitem m (task_id task) task) tasks [],
          q_dag = dag, q_execution_order = order\<rparr>
       in Inr (queue_data, Some queue_data))"







fun dump_items :: "(string \<times> pyval) list \<Rightarrow> py_error + (string \<times> json) list" where
  "dump_items [] = Inr []"
| "dump_items ((k, Unserialisable e) # rest) = Inl e"
| "dump_items ((k, Json v) # rest) = bind_err (dump_items rest) (\<lambda>items. Inr ((k, v) # items))"


definition get_ready_tasks :: "queue option \<Rightarrow> SubTask list" where
  "get_ready_tasks file =
     (case read_queue file of
        None \<Rightarrow> []
      | Some q \<Rightarrow>
          (let completed_tasks = map fst (filter (\<lambda>(tid, t). status t = ''completed'') (q_tasks q))
           in map snd (filter (\<lambda>(tid, task). status task = ''pending'' \<and>
                                  (\<forall>d \<in> set (dependencies task). d \<in> set completed_tasks))
                         (q_tasks q))))"

text \<open>
  The dictionary returned by \<^verbatim>\<open>get_progress\<close>. The early return for an empty queue
  has no \<^verbatim>\<open>progress_percent\<close> key, hence the option. The quotient \<^verbatim>\<open>a / b\<close> of two
  integers raises \<^verbatim>\<open>ZeroDivisionError\<close> when \<open>b = 0\<close>. Python computes the percentage
  in floating point; the model computes the same quotient exactly. Rounding is monotone
  and 0, 1 and 100 are floating-point numbers, so a bound by one of them that holds for the
  exact value holds for the rounded one.
\<close>

record progress =
  cnt_total :: nat
  cnt_completed :: nat
  cnt_running :: nat
  cnt_pending :: nat
  cnt_failed :: nat
  progress_percent :: "real option"

definition py_truediv :: "nat \<Rightarrow> nat \<Rightarrow> py_error + real" where
  "py_truediv a b = (if b = 0 then Inl ZeroDivisionError else Inr (real a / real b))"

definition count_status :: "string \<Rightarrow> (string \<times> SubTask) list \<Rightarrow> nat" where
  "count_status s tasks = length (filter (\<lambda>(tid, t). status t = s) tasks)"

definition get_progress :: "queue option \<Rightarrow> py_error + progress" where
  "get_progress file =
     (case read_queue file of
        None \<Rightarrow> Inr \<lparr>cnt_total = 0, cnt_completed = 0, cnt_running = 0, cnt_pending = 0,
                     cnt_failed = 0, progress_percent = None\<rparr>
      | Some q \<Rightarrow>
          (let tasks = q_tasks q;
               total = length tasks;
               ncompleted = count_status ''completed'' tasks
           in bind_err (if total > 0
                        then bind_err (py_truediv ncompleted total) (\<lambda>x. Inr (x * 100))
                        else Inr 0) (\<lambda>percent.
                Inr \<lparr>cnt_total = total, cnt_completed = ncompleted,
                     cnt_running = count_status ''running'' tasks,
                     cnt_pending = count_status ''pending'' tasks,
                     cnt_failed = count_status ''failed'' tasks,
                     progress_percent = Some percent\<rparr>)))"

text \<open>
  \<^verbatim>\<open>_generate_summary\<close>. The text that it returns is either the fixed sentence for no
  results or one line per result, formatted from the task id and from the value
  \<^verbatim>\<open>result.get("output", {}).get("summary", ...)\<close>; the model keeps the values the
  lines are formatted from. Both \<^verbatim>\<open>get\<close> calls raise \<^verbatim>\<open>AttributeError\<close> on a value
  that is no dictionary. The default summary is the text \<^verbatim>\<open>U+5DF2 U+5B8C U+6210\<close>.
\<close>

datatype summary = No_results | Summary_lines "(string \<times> json) list"

fun summary_parts :: "(string \<times> json) list \<Rightarrow> py_error + (string \<times> json) list" where
  "summary_parts [] = Inr []"
| "summary_parts ((tid, result) # rest) =
     bind_err (json_get result ''output'' (JDict [])) (\<lambda>output.
       bind_err (json_get output ''summary'' (JStr [0x5DF2, 0x5B8C, 0x6210])) (\<lambda>summary.
         bind_err (summary_parts rest) (\<lambda>parts. Inr ((tid, summary) # parts))))"

definition generate_summary :: "(string \<times> json) list \<Rightarrow> py_error + summary" where
  "generate_summary results =
     (if results = [] then Inr No_results
      else bind_err (summary_parts results) (\<lambda>parts. Inr (Summary_lines parts)))"

text \<open>
  \<^verbatim>\<open>aggregate_results\<close>. \<open>files\<close> is the file system as the method sees it: \<open>files p\<close>
  is \<open>None\<close> when the path \<open>p\<close> does not exist, \<open>Some (Inl e)\<close> when opening the file or
  \<^verbatim>\<open>json.load\<close> raises \<open>e\<close> (\<^verbatim>\<open>JSONDecodeError\<close> for a file that holds no JSON text),
  and \<open>Some (Inr v)\<close> when the file parses to \<open>v\<close>. \<open>collect_results\<close> is the loop that
  fills \<^verbatim>\<open>results\<close>; the test \<^verbatim>\<open>task.get("result_file")\<close> is false for \<^verbatim>\<open>None\<close> and
  for the empty string. The early return for an empty queue has the two keys
  \<^verbatim>\<open>status\<close> and \<^verbatim>\<open>results\<close> only. The summary is the last entry that the method
  evaluates.
\<close>

record aggregate =
  agg_status :: string
  agg_main_task_id :: "string option"
  agg_progress :: "progress option"
  agg_results :: "(string \<times> json) list"
  agg_summary :: "summary option"

fun collect_results ::
  "(string \<Rightarrow> (py_error + json) option) \<Rightarrow> (string \<times> SubTask) list \<Rightarrow> (string \<times> json) list \<Rightarrow>
   py_error + (string \<times> json) list" where
  "collect_results files [] results = Inr results"
| "collect_results files ((tid, task) # rest) results =
     (if status task = ''completed'' then
        (case result_file task of
           None \<Rightarrow> collect_results files rest results
         | Some p \<Rightarrow>
             if p = [] then collect_results files rest results
             else
               (case files p of
                  None \<Rightarrow> collect_results files rest results
                | Some content \<Rightarrow>
                    bind_err content (\<lambda>result.
                      collect_results files rest (py_setitem results tid result))))
      else collect_results files rest results)"

definition aggregate_results ::
  "(string \<Rightarrow> (py_error + json) option) \<Rightarrow> queue option \<Rightarrow> py_error + aggregate" where
  "aggregate_results files file =
     (case read_queue file of
        None \<Rightarrow> Inr \<lparr>agg_status = ''no_tasks'', agg_main_task_id = None, agg_progress = None,
                     agg_results = [], agg_summary = None\<rparr>
      | Some q \<Rightarrow>
          bind_err (collect_results files (q_tasks q) []) (\<lambda>results.
            bind_err (get_progress file) (\<lambda>prog.
              let final_status =
                    (if cnt_failed prog > 0
                     then (if cnt_completed prog > 0 then ''partial'' else ''failed'')
                     else ''success'')
              in bind_err (generate_summary results) (\<lambda>summary.
                   Inr \<lparr>agg_status = final_status, agg_main_task_id = Some (q_main_task_id q),
                        agg_progress = Some prog, agg_results = results,
                        agg_summary = Some summary\<rparr>))))"

section \<open>workflow_runner.py: the data model, analyze_complexity and decompose_task\<close>

text \<open>
  The dataclass \<^verbatim>\<open>SwarmTask\<close>; its fields carry the prefix \<open>sw_\<close> to keep them apart
  from those of \<^verbatim>\<open>SubTask\<close>. \<open>task_output\<close> is the dictionary that
  \<^verbatim>\<open>_execute_single_task\<close> returns.
\<close>

record task_output =
  o_task_id :: string
  o_worker :: string
  o_status :: string
  o_output :: ustr

record SwarmTask =
  sw_task_id :: string
  sw_description :: ustr
  sw_worker_type :: string
  sw_dependencies :: "string list"
  sw_status :: string
  sw_result :: "task_output option"

definition new_SwarmTask :: "string \<Rightarrow> ustr \<Rightarrow> string \<Rightarrow> string list \<Rightarrow> SwarmTask" where
  "new_SwarmTask tid desc wtype deps =
     \<lparr>sw_task_id = tid, sw_description = desc, sw_worker_type = wtype,
      sw_dependencies = deps, sw_status = ''pending'', sw_result = None\<rparr>"

definition complex_keywords_wr :: "ustr list" where
  "complex_keywords_wr =
     [[0x7CFB, 0x7EDF], [0x67B6, 0x6784], [0x91CD, 0x6784], [0x5F00, 0x53D1], [0x5B9E, 0x73B0],
      [0x6784, 0x5EFA], [0x8BBE, 0x8BA1]]"

definition simple_keywords_wr :: "ustr list" where
  "simple_keywords_wr =
     [[0x4FEE, 0x6539], [0x4FEE, 0x590D], [0x4F18, 0x5316], [0x6DFB, 0x52A0], [0x66F4, 0x65B0]]"

text \<open>The two \<^verbatim>\<open>sum(.. for kw in .. if kw in task_description)\<close>.\<close>

definition complexity_score_wr :: "ustr \<Rightarrow> int" where
  "complexity_score_wr task_description =
     (\<Sum>kw \<leftarrow> filter (\<lambda>kw. py_in kw task_description) complex_keywords_wr. 2) +
     (\<Sum>kw \<leftarrow> filter (\<lambda>kw. py_in kw task_description) simple_keywords_wr. 1)"

text \<open>The returned dictionary has the two keys \<^verbatim>\<open>complexity\<close> and \<^verbatim>\<open>swarm_mode\<close>.\<close>

definition analyze_complexity :: "ustr \<Rightarrow> string \<times> bool" where
  "analyze_complexity task_description =
     (let score = complexity_score_wr task_description in
      if score \<ge> 4 then (''complex'', True)
      else if score \<ge> 2 then (''medium'', False)
      else (''simple'', False))"

definition decompose_task_wr :: "ustr \<Rightarrow> SwarmTask list" where
  "decompose_task_wr task_description =
     [new_SwarmTask ''task_001'' [0x8C03, 0x7814, 0x6280, 0x672F, 0x65B9, 0x6848] ''researcher'' [],
      new_SwarmTask ''task_002'' [0x8BBE, 0x8BA1, 0x7CFB, 0x7EDF, 0x67B6, 0x6784] ''coder''
        [''task_001''],
      new_SwarmTask ''task_003'' [0x5B9E, 0x73B0, 0x6838, 0x5FC3, 0x529F, 0x80FD] ''coder''
        [''task_002''],
      new_SwarmTask ''task_004'' [0x7F16, 0x5199, 0x6D4B, 0x8BD5, 0x7528, 0x4F8B] ''tester''
        [''task_003''],
      new_SwarmTask ''task_005'' [0x7F16, 0x5199, 0x6587, 0x6863] ''writer'' [''task_003''],
      new_SwarmTask ''task_006'' [0x4EE3, 0x7801, 0x5BA1, 0x67E5] ''reviewer''
        [''task_003'', ''task_004'', ''task_005'']]"

section \<open>workflow_runner.py: build_execution_order\<close>

text \<open>\<^verbatim>\<open>task_map = {t.task_id: t for t in tasks}\<close>: a later task with the same id wins.\<close>

definition task_map_of :: "SwarmTask list \<Rightarrow> (string \<times> SwarmTask) list" where
  "task_map_of tasks = fold (\<lambda>t m. py_setitem m (sw_task_id t) t) tasks []"

text \<open>
  One pass of \<^verbatim>\<open>for tid in remaining\<close>, collecting the tasks all of whose dependency
  ids are in \<^verbatim>\<open>completed\<close>.
\<close>

fun ready_tasks :: "(string \<times> SwarmTask) list \<Rightarrow> string list \<Rightarrow> string list \<Rightarrow> py_error + SwarmTask list" where
  "ready_tasks task_map completed [] = Inr []"
| "ready_tasks task_map completed (tid # tids) =
     (case py_getitem task_map tid of
        Inl e \<Rightarrow> Inl e
      | Inr task \<Rightarrow>
          (case ready_tasks task_map completed tids of
             Inl e \<Rightarrow> Inl e
           | Inr r \<Rightarrow>
               Inr (if \<forall>d \<in> set (sw_dependencies task). d \<in> set completed then task # r else r)))"

lemma fold_setitem_id:
  "(\<And>k v. map_of m k = Some v \<Longrightarrow> sw_task_id v = k) \<Longrightarrow>
   map_of (fold (\<lambda>t m. py_setitem m (sw_task_id t) t) tasks m) tid = Some t \<Longrightarrow>
   sw_task_id t = tid"
proof (induction tasks arbitrary: m)
  case Nil
  then show ?case by simp
next
  case (Cons a tasks)
  have inv: "sw_task_id v = k" if "map_of (py_setitem m (sw_task_id a) a) k = Some v" for k v
    using that Cons.prems(1)[of k v]
    by (auto simp: py_setitem_def update_conv' split: if_splits)
  from Cons.prems(2) have "map_of (fold (\<lambda>t m. py_setitem m (sw_task_id t) t) tasks
      (py_setitem m (sw_task_id a) a)) tid = Some t" by simp
  with inv show ?case by (rule Cons.IH)
qed

lemma task_map_of_id: "map_of (task_map_of tasks) tid = Some t \<Longrightarrow> sw_task_id t = tid"
  unfolding task_map_of_def by (rule fold_setitem_id[where m = "[]"]) simp_all

lemma ready_tasks_from:
  "ready_tasks task_map completed rem = Inr r \<Longrightarrow> t \<in> set r \<Longrightarrow>
   \<exists>tid \<in> set rem. map_of task_map tid = Some t"
  by (induction rem arbitrary: r)
     (auto simp: py_getitem_def split: sum.splits option.splits if_splits)

text \<open>
  The \<^verbatim>\<open>while remaining:\<close> loop. \<^verbatim>\<open>task_map\<close> does not change inside the loop; the
  model recomputes it from \<open>tasks\<close>. The sets \<^verbatim>\<open>completed\<close> and \<^verbatim>\<open>remaining\<close> are
  lists.
\<close>

function beo_loop ::
  "SwarmTask list \<Rightarrow> string list \<Rightarrow> string list \<Rightarrow> SwarmTask list list \<Rightarrow> py_error + SwarmTask list list" where
  "beo_loop tasks completed remaining levels =
     (if remaining = [] then Inr levels
      else case ready_tasks (task_map_of tasks) completed remaining of
        Inl e \<Rightarrow> Inl e
      | Inr ready \<Rightarrow>
          if ready = [] then Inr levels
          else beo_loop tasks (completed @ map sw_task_id ready)
                 (filter (\<lambda>tid. tid \<notin> set (map sw_task_id ready)) remaining)
                 (levels @ [ready]))"
  by pat_completeness auto
termination beo_loop
proof (relation "measure (\<lambda>(tasks, completed, remaining, levels). length remaining)", goal_cases)
  case 1
  then show ?case by simp
next
  case (2 tasks completed remaining levels ready)
  then obtain t where t: "t \<in> set ready" by (cases ready) auto
  with 2 obtain tid where tid: "tid \<in> set remaining" "map_of (task_map_of tasks) tid = Some t"
    using ready_tasks_from by blast
  then have "sw_task_id t = tid" using task_map_of_id by blast
  with t tid have "tid \<in> set remaining \<and> \<not> tid \<notin> set (map sw_task_id ready)" by auto
  then show ?case
    by (auto intro!: length_filter_less)
qed

declare beo_loop.simps [simp del]

definition build_execution_order :: "SwarmTask list \<Rightarrow> py_error + SwarmTask list list" where
  "build_execution_order tasks = beo_loop tasks [] (remdups (map sw_task_id tasks)) []"

section \<open>workflow_runner.py: execute_parallel\<close>

text \<open>
  \<^verbatim>\<open>_execute_single_task\<close> as the source has it: it marks the task running, sleeps and
  returns a result dictionary. The engine wraps the call in \<^verbatim>\<open>try .. except Exception\<close>,
  so the engine is modelled for any executor, a function from the task to either the text
  of the exception it raises (\<open>Inl\<close>) or its result (\<open>Inr\<close>).
\<close>

definition execute_single_task :: "SwarmTask \<Rightarrow> string + task_output" where
  "execute_single_task task =
     Inr \<lparr>o_task_id = sw_task_id task, o_worker = sw_worker_type task,
          o_status = ''completed'',
          o_output = [0x5B8C, 0x6210, 0x3A, 0x20] @ sw_description task\<rparr>"








subsection \<open>The order of events inside execute_parallel\<close>

text \<open>
  What the worker threads do, as a trace of events: a worker starts a task, a worker ends
  it with an outcome (\<open>True\<close> for a returned result, \<open>False\<close> for an exception).

  \<open>level_run\<close> gives the traces of one \<^verbatim>\<open>with ThreadPoolExecutor(max_workers)\<close> block:
  the tasks of the level are submitted in order and wait in \<open>queue\<close>; a free worker takes
  the first waiting task; any running task may end next. The block is left when the
  \<^verbatim>\<open>as_completed\<close> loop has seen every future and the pool has shut down, that is when
  nothing waits and nothing runs.

  \<open>engine_run\<close> is the \<^verbatim>\<open>for level_idx, level_tasks in enumerate(levels)\<close> loop: the
  blocks run one after the other.
\<close>

datatype event = Start string | Finish string bool

definition succeeds :: "(SwarmTask \<Rightarrow> string + task_output) \<Rightarrow> SwarmTask \<Rightarrow> bool" where
  "succeeds exec t = (case exec t of Inl e \<Rightarrow> False | Inr r \<Rightarrow> True)"

inductive level_run ::
  "nat \<Rightarrow> (SwarmTask \<Rightarrow> string + task_output) \<Rightarrow> SwarmTask list \<Rightarrow> SwarmTask list \<Rightarrow> event list \<Rightarrow> bool"
  for max_workers :: nat and exec :: "SwarmTask \<Rightarrow> string + task_output" where
  level_done: "level_run max_workers exec [] [] []"
| level_start:
    "length running < max_workers \<Longrightarrow>
     level_run max_workers exec queue (running @ [t]) tr \<Longrightarrow>
     level_run max_workers exec (t # queue) running (Start (sw_task_id t) # tr)"
| level_finish:
    "t \<in> set running \<Longrightarrow>
     level_run max_workers exec queue (remove1 t running) tr \<Longrightarrow>
     level_run max_workers exec queue running (Finish (sw_task_id t) (succeeds exec t) # tr)"

inductive engine_run ::
  "nat \<Rightarrow> (SwarmTask \<Rightarrow> string + task_output) \<Rightarrow> SwarmTask list list \<Rightarrow> event list \<Rightarrow> bool"
  for max_workers :: nat and exec :: "SwarmTask \<Rightarrow> string + task_output" where
  engine_done: "engine_run max_workers exec [] []"
| engine_level:
    "level_run max_workers exec level_tasks [] tr \<Longrightarrow>
     engine_run max_workers exec levels tr' \<Longrightarrow>
     engine_run max_workers exec (level_tasks # levels) (tr @ tr')"

text \<open>
  The dependency relation of a task list as \<^verbatim>\<open>build_execution_order\<close> reads it: the
  task that \<^verbatim>\<open>task_map\<close> holds for \<open>a\<close> lists \<open>b\<close> as a dependency.
\<close>

definition dep_rel_wr :: "SwarmTask list \<Rightarrow> (string \<times> string) set" where
  "dep_rel_wr tasks =
     {(a, b). \<exists>t. map_of (task_map_of tasks) a = Some t \<and> b \<in> set (sw_dependencies t)}"

section \<open>Dependency graphs and their levels\<close>

text \<open>
  The vocabulary of the theorems. \<open>deps_of dag n\<close> is the dependency list that \<open>dag\<close>
  holds for \<open>n\<close>; \<open>dep_graph dag\<close> has an edge from a task to each of its dependencies
  that is itself a key of \<open>dag\<close>: the dependency graph restricted to the ids of the set.
\<close>

definition deps_of :: "(string \<times> string list) list \<Rightarrow> string \<Rightarrow> string list" where
  "deps_of dag n = (case map_of dag n of None \<Rightarrow> [] | Some ds \<Rightarrow> ds)"

definition dep_graph :: "(string \<times> string list) list \<Rightarrow> (string \<times> string) set" where
  "dep_graph dag = {(n, d). \<exists>deps. (n, deps) \<in> set dag \<and> d \<in> set deps \<and> d \<in> fst ` set dag}"

text \<open>
  For a task list of \<^verbatim>\<open>workflow_runner.py\<close>: \<open>task_of tasks tid\<close> is the object that
  \<^verbatim>\<open>task_map\<close> holds for \<open>tid\<close>, \<open>deps_wr\<close> its dependency list, \<open>dep_graph_wr\<close> the
  dependency graph restricted to the ids of the list, and \<open>no_dangling_wr\<close> says that every
  dependency id is the id of a task of the list.
\<close>

definition task_of :: "SwarmTask list \<Rightarrow> string \<Rightarrow> SwarmTask" where
  "task_of tasks tid = the (map_of (task_map_of tasks) tid)"

definition deps_wr :: "SwarmTask list \<Rightarrow> string \<Rightarrow> string list" where
  "deps_wr tasks tid = sw_dependencies (task_of tasks tid)"

definition dep_graph_wr :: "SwarmTask list \<Rightarrow> (string \<times> string) set" where
  "dep_graph_wr tasks = {(a, b). (a, b) \<in> dep_rel_wr tasks \<and> b \<in> sw_task_id ` set tasks}"

definition no_dangling_wr :: "SwarmTask list \<Rightarrow> bool" where
  "no_dangling_wr tasks =
     (\<forall>t \<in> set tasks. \<forall>d \<in> set (sw_dependencies t). d \<in> sw_task_id ` set tasks)"

text \<open>
  Two functions that compute levels without dictionaries and without errors; the
  schedulers of the source are shown to compute the same lists. \<open>kahn_levels\<close> takes as
  ready every remaining node none of whose dependencies remains (the in-degree test of
  \<^verbatim>\<open>get_execution_order\<close>); \<open>done_levels\<close> takes as ready every remaining node all of
  whose dependencies are completed (the test of \<^verbatim>\<open>build_execution_order\<close>).
\<close>

definition ready_in :: "('a \<Rightarrow> 'a list) \<Rightarrow> 'a list \<Rightarrow> 'a list" where
  "ready_in deps remaining = filter (\<lambda>n. \<forall>d \<in> set (deps n). d \<notin> set remaining) remaining"

function kahn_levels :: "('a \<Rightarrow> 'a list) \<Rightarrow> 'a list \<Rightarrow> 'a list list" where
  "kahn_levels deps remaining =
     (if ready_in deps remaining = [] then []
      else ready_in deps remaining #
           kahn_levels deps (filter (\<lambda>n. n \<notin> set (ready_in deps remaining)) remaining))"
  by pat_completeness auto
termination kahn_levels
proof (relation "measure (\<lambda>(deps, remaining). length remaining)", goal_cases)
  case 1
  then show ?case by simp
next
  case (2 deps remaining)
  then obtain x where x: "x \<in> set (ready_in deps remaining)"
    by (cases "ready_in deps remaining") auto
  then have "x \<in> set remaining" by (simp add: ready_in_def)
  with x show ?case by (auto intro!: length_filter_less)
qed

declare kahn_levels.simps [simp del]

text \<open>\<open>restr deps S\<close> is the dependency relation between the nodes of \<open>S\<close>.\<close>

definition restr :: "('a \<Rightarrow> 'a list) \<Rightarrow> 'a set \<Rightarrow> ('a \<times> 'a) set" where
  "restr deps S = {(n, d). n \<in> S \<and> d \<in> set (deps n) \<and> d \<in> S}"

definition ready_done :: "('a \<Rightarrow> 'a list) \<Rightarrow> 'a list \<Rightarrow> 'a list \<Rightarrow> 'a list" where
  "ready_done deps completed remaining =
     filter (\<lambda>n. \<forall>d \<in> set (deps n). d \<in> set completed) remaining"

function done_levels :: "('a \<Rightarrow> 'a list) \<Rightarrow> 'a list \<Rightarrow> 'a list \<Rightarrow> 'a list list" where
  "done_levels deps completed remaining =
     (if ready_done deps completed remaining = [] then []
      else ready_done deps completed remaining #
           done_levels deps (completed @ ready_done deps completed remaining)
             (filter (\<lambda>n. n \<notin> set (ready_done deps completed remaining)) remaining))"
  by pat_completeness auto
termination done_levels
proof (relation "measure (\<lambda>(deps, completed, remaining). length remaining)", goal_cases)
  case 1
  then show ?case by simp
next
  case (2 deps completed remaining)
  then have "hd (ready_done deps completed remaining) \<in> set (ready_done deps completed remaining)"
    by (intro hd_in_set)
  then obtain x where x: "x \<in> set (ready_done deps completed remaining)" ..
  then have "x \<in> set remaining" by (simp add: ready_done_def)
  with x show ?case by (auto intro!: length_filter_less)
qed

declare done_levels.simps [simp del]

text \<open>
  The ids of a task list, each once, as \<^verbatim>\<open>build_execution_order\<close> starts with them in
  \<^verbatim>\<open>remaining\<close>, and the levels of ids it computes from them.
\<close>

definition ids_of :: "SwarmTask list \<Rightarrow> string list" where
  "ids_of tasks = remdups (map sw_task_id tasks)"

definition id_levels :: "SwarmTask list \<Rightarrow> string list list" where
  "id_levels tasks = done_levels (deps_wr tasks) [] (ids_of tasks)"

section \<open>The level functions\<close>

lemma ready_in_subset: "set (ready_in deps rem) \<subseteq> set rem"
  by (auto simp: ready_in_def)

lemma kahn_subset: "set (concat (kahn_levels deps rem)) \<subseteq> set rem"
proof (induction deps rem rule: kahn_levels.induct)
  case (1 deps rem)
  show ?case
  proof (cases "ready_in deps rem = []")
    case True
    then show ?thesis by (subst kahn_levels.simps) simp
  next
    case False
    from 1[OF False] have "set (concat (kahn_levels deps (filter (\<lambda>n. n \<notin> set (ready_in deps rem)) rem))) \<subseteq> set rem"
      by auto
    with False show ?thesis
      using ready_in_subset[of deps rem] by (subst kahn_levels.simps) auto
  qed
qed

lemma kahn_distinct: "distinct rem \<Longrightarrow> distinct (concat (kahn_levels deps rem))"
proof (induction deps rem rule: kahn_levels.induct)
  case (1 deps rem)
  show ?case
  proof (cases "ready_in deps rem = []")
    case True
    then show ?thesis by (subst kahn_levels.simps) simp
  next
    case False
    let ?rem' = "filter (\<lambda>n. n \<notin> set (ready_in deps rem)) rem"
    have "distinct (concat (kahn_levels deps ?rem'))"
      using 1 False by simp
    moreover have "distinct (ready_in deps rem)" using 1(2) by (simp add: ready_in_def)
    moreover have "set (ready_in deps rem) \<inter> set (concat (kahn_levels deps ?rem')) = {}"
      using kahn_subset[of deps ?rem'] by auto
    ultimately show ?thesis using False by (subst kahn_levels.simps) simp
  qed
qed

lemma kahn_deps_earlier:
  "j < length (kahn_levels deps rem) \<Longrightarrow> n \<in> set (kahn_levels deps rem ! j) \<Longrightarrow>
   d \<in> set (deps n) \<Longrightarrow> d \<in> set rem \<Longrightarrow>
   \<exists>i<j. d \<in> set (kahn_levels deps rem ! i)"
proof (induction deps rem arbitrary: j rule: kahn_levels.induct)
  case (1 deps rem)
  show ?case
  proof (cases "ready_in deps rem = []")
    case True
    with 1(2) show ?thesis by (subst (asm) kahn_levels.simps) simp
  next
    case False
    let ?rem' = "filter (\<lambda>n. n \<notin> set (ready_in deps rem)) rem"
    have eq: "kahn_levels deps rem = ready_in deps rem # kahn_levels deps ?rem'"
      using False by (subst kahn_levels.simps) simp
    show ?thesis
    proof (cases j)
      case 0
      with 1(3) eq have "n \<in> set (ready_in deps rem)" by simp
      with 1(4,5) show ?thesis by (auto simp: ready_in_def)
    next
      case (Suc j')
      with 1(2,3) eq have j': "j' < length (kahn_levels deps ?rem')"
        and n: "n \<in> set (kahn_levels deps ?rem' ! j')" by auto
      show ?thesis
      proof (cases "d \<in> set (ready_in deps rem)")
        case True
        with eq Suc show ?thesis by (intro exI[of _ 0]) simp
      next
        case False
        with 1(5) have "d \<in> set ?rem'" by simp
        from 1(1)[OF \<open>ready_in deps rem \<noteq> []\<close> j' n 1(4) this]
        obtain i where "i < j'" "d \<in> set (kahn_levels deps ?rem' ! i)" by blast
        with eq Suc show ?thesis by (intro exI[of _ "Suc i"]) simp
      qed
    qed
  qed
qed

lemma restr_finite: "finite (restr deps (set rem))"
proof -
  have "restr deps (set rem) \<subseteq> set rem \<times> set rem" by (auto simp: restr_def)
  then show ?thesis by (rule finite_subset) simp
qed

lemma acyclic_ready_nonempty:
  assumes "acyclic (restr deps (set rem))" and "rem \<noteq> []"
  shows "ready_in deps rem \<noteq> []"
proof -
  have w: "wf ((restr deps (set rem))\<inverse>)"
    using assms(1) restr_finite by (rule finite_acyclic_wf_converse[rotated])
  from assms(2) obtain x where x: "x \<in> set rem" by (cases rem) auto
  have "\<exists>z\<in>set rem. \<forall>y. (y, z) \<in> (restr deps (set rem))\<inverse> \<longrightarrow> y \<notin> set rem"
    by (rule wfE_min[OF w x]) blast
  then obtain z where z: "z \<in> set rem"
    and min: "\<forall>y. (y, z) \<in> (restr deps (set rem))\<inverse> \<longrightarrow> y \<notin> set rem"
    by blast
  have "d \<notin> set rem" if d: "d \<in> set (deps z)" for d
  proof
    assume "d \<in> set rem"
    with z d have "(d, z) \<in> (restr deps (set rem))\<inverse>" by (simp add: restr_def)
    with min \<open>d \<in> set rem\<close> show False by blast
  qed
  with z have "z \<in> set (ready_in deps rem)" by (simp add: ready_in_def)
  then show ?thesis by auto
qed

lemma kahn_complete:
  "acyclic (restr deps (set rem)) \<Longrightarrow> set (concat (kahn_levels deps rem)) = set rem"
proof (induction deps rem rule: kahn_levels.induct)
  case (1 deps rem)
  show ?case
  proof (cases "rem = []")
    case True
    then show ?thesis by (subst kahn_levels.simps) (simp add: ready_in_def)
  next
    case False
    with 1(2) have ne: "ready_in deps rem \<noteq> []" by (rule acyclic_ready_nonempty)
    let ?rem' = "filter (\<lambda>n. n \<notin> set (ready_in deps rem)) rem"
    have "restr deps (set ?rem') \<subseteq> restr deps (set rem)" by (auto simp: restr_def)
    with 1(2) have "acyclic (restr deps (set ?rem'))" by (rule acyclic_subset)
    with 1(1)[OF ne] have "set (concat (kahn_levels deps ?rem')) = set ?rem'" by simp
    with ne show ?thesis
      using ready_in_subset[of deps rem] by (subst kahn_levels.simps) auto
  qed
qed

lemma ready_nodes_eq:
  "(\<And>n. n \<in> set rem \<Longrightarrow> map_of in_degree n = Some (f n)) \<Longrightarrow>
   ready_nodes in_degree rem = Inr (filter (\<lambda>n. f n = 0) rem)"
  by (induction rem) (auto simp: py_getitem_def)

lemma refresh_in_degree_eq:
  "set ns \<subseteq> fst ` set dag \<Longrightarrow>
   \<exists>ind'. refresh_in_degree dag R in_degree ns = Inr ind' \<and>
     (\<forall>n. map_of ind' n =
        (if n \<in> set ns then Some (length (filter (\<lambda>d. d \<in> set R) (deps_of dag n)))
         else map_of in_degree n))"
proof (induction ns arbitrary: in_degree)
  case Nil
  then show ?case by simp
next
  case (Cons a ns)
  from Cons.prems obtain ds where ds: "map_of dag a = Some ds"
    by (auto simp: weak_map_of_SomeI map_of_eq_None_iff[symmetric] split: option.splits)
       (metis domD domI dom_map_of_conv_image_fst imageI fst_conv)
  let ?m = "py_setitem in_degree a (length (filter (\<lambda>d. d \<in> set R) ds))"
  from Cons.prems have "set ns \<subseteq> fst ` set dag" by simp
  from Cons.IH[OF this, of ?m] obtain ind' where
    r: "refresh_in_degree dag R ?m ns = Inr ind'" and
    m: "\<forall>n. map_of ind' n =
        (if n \<in> set ns then Some (length (filter (\<lambda>d. d \<in> set R) (deps_of dag n)))
         else map_of ?m n)" by blast
  have "refresh_in_degree dag R in_degree (a # ns) = Inr ind'"
    using ds r by (simp add: py_getitem_def)
  moreover have "map_of ind' n =
        (if n \<in> set (a # ns) then Some (length (filter (\<lambda>d. d \<in> set R) (deps_of dag n)))
         else map_of in_degree n)" for n
    using m ds by (simp add: py_setitem_def update_conv' deps_of_def)
  ultimately show ?case by blast
qed

lemma ready_in_filter_length:
  "filter (\<lambda>n. filter (\<lambda>d. d \<in> set rem) (deps n) = []) rem = ready_in deps rem"
  unfolding ready_in_def by (rule filter_cong) (auto simp: filter_empty_conv)

lemma geo_loop_kahn:
  "set rem \<subseteq> fst ` set dag \<Longrightarrow>
   (\<And>n. n \<in> set rem \<Longrightarrow>
      map_of in_degree n = Some (length (filter (\<lambda>d. d \<in> set rem) (deps_of dag n)))) \<Longrightarrow>
   geo_loop dag in_degree rem levels = Inr (levels @ kahn_levels (deps_of dag) rem)"
proof (induction "length rem" arbitrary: rem in_degree levels rule: less_induct)
  case less
  let ?deps = "deps_of dag"
  have "ready_nodes in_degree rem =
          Inr (filter (\<lambda>n. length (filter (\<lambda>d. d \<in> set rem) (?deps n)) = 0) rem)"
    by (rule ready_nodes_eq) (rule less.prems(2))
  then have rn: "ready_nodes in_degree rem = Inr (ready_in ?deps rem)"
    by (simp only: length_0_conv ready_in_filter_length)
  show ?case
  proof (cases "ready_in ?deps rem = []")
    case True
    then have "kahn_levels ?deps rem = []" by (subst kahn_levels.simps) simp
    with True rn show ?thesis by (subst geo_loop.simps) simp
  next
    case False
    let ?ready = "ready_in ?deps rem"
    let ?rem' = "filter (\<lambda>n. n \<notin> set ?ready) rem"
    from False have "hd ?ready \<in> set ?ready" by (rule hd_in_set)
    then obtain x where x: "x \<in> set ?ready" ..
    then have "x \<in> set rem" using ready_in_subset[of ?deps rem] by auto
    with x have len: "length ?rem' < length rem" by (auto intro!: length_filter_less)
    have sub: "set ?rem' \<subseteq> fst ` set dag" using less.prems(1) by auto
    from refresh_in_degree_eq[OF sub, of ?rem' in_degree] obtain ind' where
      r: "refresh_in_degree dag ?rem' in_degree ?rem' = Inr ind'" and
      m: "\<forall>n. map_of ind' n =
        (if n \<in> set ?rem' then Some (length (filter (\<lambda>d. d \<in> set ?rem') (?deps n)))
         else map_of in_degree n)" by blast
    have "geo_loop dag ind' ?rem' (levels @ [?ready]) =
          Inr ((levels @ [?ready]) @ kahn_levels ?deps ?rem')"
      by (rule less.hyps[OF len sub]) (use m in simp)
    moreover have "kahn_levels ?deps rem = ?ready # kahn_levels ?deps ?rem'"
      using False by (subst kahn_levels.simps) simp
    moreover have "rem \<noteq> []" using \<open>x \<in> set rem\<close> by auto
    ultimately show ?thesis
      using rn r False by (subst geo_loop.simps) simp
  qed
qed

lemma fold_in_degree:
  "distinct (map fst xs) \<Longrightarrow>
   map_of (fold (\<lambda>(node, deps) m. py_setitem m node (g deps)) xs m) n =
     (case map_of xs n of None \<Rightarrow> map_of m n | Some deps \<Rightarrow> Some (g deps))"
proof (induction xs arbitrary: m)
  case Nil
  then show ?case by simp
next
  case (Cons a xs)
  obtain k ds where a: "a = (k, ds)" by (cases a)
  from Cons.prems a have "map_of xs k = None"
    by (simp add: map_of_eq_None_iff)
  with Cons a show ?case
    by (auto simp: py_setitem_def update_conv' split: option.splits)
qed

lemma get_execution_order_kahn:
  assumes "is_dict dag"
  shows "get_execution_order dag = Inr (kahn_levels (deps_of dag) (map fst dag))"
proof -
  let ?g = "\<lambda>deps. length (filter (\<lambda>d. d \<in> set (map fst dag)) deps)"
  let ?ind = "fold (\<lambda>(node, deps) m. py_setitem m node (?g deps)) dag
                (map (\<lambda>(node, deps). (node, 0::nat)) dag)"
  from assms have d: "distinct (map fst dag)" by (simp add: is_dict_def)
  have "map_of ?ind n = Some (?g (deps_of dag n))" if "n \<in> set (map fst dag)" for n
  proof -
    from that obtain ds where "map_of dag n = Some ds"
      by (metis map_of_eq_None_iff not_Some_eq set_map)
    then show ?thesis
      using fold_in_degree[OF d, of ?g] by (simp add: deps_of_def)
  qed
  then have "geo_loop dag ?ind (map fst dag) [] = Inr ([] @ kahn_levels (deps_of dag) (map fst dag))"
    by (intro geo_loop_kahn) auto
  then show ?thesis
    using d by (simp add: get_execution_order_def distinct_remdups_id)
qed

lemma restr_dep_graph:
  assumes "is_dict dag"
  shows "restr (deps_of dag) (set (map fst dag)) = dep_graph dag"
proof -
  from assms have d: "distinct (map fst dag)" by (simp add: is_dict_def)
  have "(n, ds) \<in> set dag \<longleftrightarrow> map_of dag n = Some ds" for n ds
    using d by simp
  then show ?thesis
    unfolding restr_def dep_graph_def deps_of_def
    by (auto split: option.splits simp: map_of_eq_None_iff image_iff) force+
qed

lemma kahn_trancl_earlier:
  assumes "(n, m) \<in> (restr deps (set rem))\<^sup>+"
  shows "j < length (kahn_levels deps rem) \<Longrightarrow> n \<in> set (kahn_levels deps rem ! j) \<Longrightarrow>
         \<exists>i<j. m \<in> set (kahn_levels deps rem ! i)"
  using assms
proof (induction rule: trancl_induct)
  case (base y)
  then show ?case
    using kahn_deps_earlier[of j deps rem n y] by (auto simp: restr_def)
next
  case (step y z)
  then obtain i where i: "i < j" "y \<in> set (kahn_levels deps rem ! i)" by blast
  with step.prems have "i < length (kahn_levels deps rem)" by simp
  from kahn_deps_earlier[OF this i(2), of z] step.hyps(2)
  obtain i' where "i' < i" "z \<in> set (kahn_levels deps rem ! i')"
    by (auto simp: restr_def)
  with i show ?case by (intro exI[of _ i']) simp
qed

lemma kahn_cycle_omitted:
  assumes "(n, n) \<in> (restr deps (set rem))\<^sup>+"
  shows "n \<notin> set (concat (kahn_levels deps rem))"
proof -
  have "j < length (kahn_levels deps rem) \<Longrightarrow> n \<notin> set (kahn_levels deps rem ! j)" for j
  proof (induction j rule: less_induct)
    case (less j)
    show ?case
    proof
      assume "n \<in> set (kahn_levels deps rem ! j)"
      from kahn_trancl_earlier[OF assms less.prems this]
      obtain i where "i < j" "n \<in> set (kahn_levels deps rem ! i)" by blast
      with less show False by simp
    qed
  qed
  then have "\<forall>xs \<in> set (kahn_levels deps rem). n \<notin> set xs"
    unfolding all_set_conv_all_nth by simp
  then show ?thesis by simp
qed

lemma ready_done_subset: "set (ready_done deps c rem) \<subseteq> set rem"
  by (auto simp: ready_done_def)

lemma done_levels_Nil: "ready_done deps c rem = [] \<Longrightarrow> done_levels deps c rem = []"
  by (subst done_levels.simps) simp

lemma done_levels_Cons:
  "ready_done deps c rem \<noteq> [] \<Longrightarrow>
   done_levels deps c rem = ready_done deps c rem #
     done_levels deps (c @ ready_done deps c rem) (filter (\<lambda>n. n \<notin> set (ready_done deps c rem)) rem)"
  by (subst done_levels.simps) simp

lemma done_subset: "set (concat (done_levels deps c rem)) \<subseteq> set rem"
proof (induction deps c rem rule: done_levels.induct)
  case (1 deps c rem)
  show ?case
  proof (cases "ready_done deps c rem = []")
    case True
    then show ?thesis by (simp add: done_levels_Nil)
  next
    case False
    from 1[OF False] show ?thesis
      using ready_done_subset[of deps c rem] by (auto simp: done_levels_Cons[OF False])
  qed
qed

lemma done_distinct: "distinct rem \<Longrightarrow> distinct (concat (done_levels deps c rem))"
proof (induction deps c rem rule: done_levels.induct)
  case (1 deps c rem)
  show ?case
  proof (cases "ready_done deps c rem = []")
    case True
    then show ?thesis by (simp add: done_levels_Nil)
  next
    case False
    let ?r = "ready_done deps c rem"
    let ?rem' = "filter (\<lambda>n. n \<notin> set ?r) rem"
    have "distinct (concat (done_levels deps (c @ ?r) ?rem'))"
      using 1 False by simp
    moreover have "distinct ?r" using 1(2) by (simp add: ready_done_def)
    moreover have "set ?r \<inter> set (concat (done_levels deps (c @ ?r) ?rem')) = {}"
      using done_subset[of deps "c @ ?r" ?rem'] by auto
    ultimately show ?thesis by (simp add: done_levels_Cons[OF False])
  qed
qed

lemma done_deps_earlier:
  "j < length (done_levels deps c rem) \<Longrightarrow> n \<in> set (done_levels deps c rem ! j) \<Longrightarrow>
   d \<in> set (deps n) \<Longrightarrow>
   d \<in> set c \<or> (\<exists>i<j. d \<in> set (done_levels deps c rem ! i))"
proof (induction deps c rem arbitrary: j rule: done_levels.induct)
  case (1 deps c rem)
  show ?case
  proof (cases "ready_done deps c rem = []")
    case True
    with 1(2) show ?thesis by (simp add: done_levels_Nil)
  next
    case False
    let ?r = "ready_done deps c rem"
    let ?rem' = "filter (\<lambda>n. n \<notin> set ?r) rem"
    note eq = done_levels_Cons[OF False]
    show ?thesis
    proof (cases j)
      case 0
      with 1(3) eq have "n \<in> set ?r" by simp
      with 1(4) show ?thesis by (auto simp: ready_done_def)
    next
      case (Suc j')
      with 1(2,3) eq have j': "j' < length (done_levels deps (c @ ?r) ?rem')"
        and n: "n \<in> set (done_levels deps (c @ ?r) ?rem' ! j')" by auto
      from 1(1)[OF False j' n 1(4)]
      consider "d \<in> set c" | "d \<in> set ?r"
        | i where "i < j'" "d \<in> set (done_levels deps (c @ ?r) ?rem' ! i)" by auto
      then show ?thesis
      proof cases
        case 1
        then show ?thesis by simp
      next
        case 2
        with eq Suc show ?thesis by (intro disjI2 exI[of _ 0]) simp
      next
        case 3
        with eq Suc show ?thesis by (intro disjI2 exI[of _ "Suc i"]) simp
      qed
    qed
  qed
qed

lemma done_levels_kahn:
  "set c \<inter> set rem = {} \<Longrightarrow> (\<And>n. n \<in> set rem \<Longrightarrow> set (deps n) \<subseteq> set c \<union> set rem) \<Longrightarrow>
   done_levels deps c rem = kahn_levels deps rem"
proof (induction deps c rem rule: done_levels.induct)
  case (1 deps c rem)
  have r: "ready_done deps c rem = ready_in deps rem"
    unfolding ready_done_def ready_in_def
    by (rule filter_cong) (use 1(2,3) in auto)
  show ?case
  proof (cases "ready_done deps c rem = []")
    case True
    with r have "kahn_levels deps rem = []" by (subst kahn_levels.simps) simp
    with True show ?thesis by (simp add: done_levels_Nil)
  next
    case False
    let ?r = "ready_done deps c rem"
    let ?rem' = "filter (\<lambda>n. n \<notin> set ?r) rem"
    have "done_levels deps (c @ ?r) ?rem' = kahn_levels deps ?rem'"
    proof (rule 1(1)[OF False])
      show "set (c @ ?r) \<inter> set ?rem' = {}" using 1(2) by auto
      show "set (deps n) \<subseteq> set (c @ ?r) \<union> set ?rem'" if "n \<in> set ?rem'" for n
        using 1(3)[of n] that by auto
    qed
    moreover have "kahn_levels deps rem = ready_in deps rem #
        kahn_levels deps (filter (\<lambda>n. n \<notin> set (ready_in deps rem)) rem)"
      using False r by (subst kahn_levels.simps) simp
    ultimately show ?thesis using r by (simp add: done_levels_Cons[OF False])
  qed
qed

lemma fold_setitem_keys:
  "fst ` set (fold (\<lambda>t m. py_setitem m (sw_task_id t) t) tasks m) = fst ` set m \<union> sw_task_id ` set tasks"
  by (induction tasks arbitrary: m) (auto simp: py_setitem_def dom_update)

lemma task_map_keys: "fst ` set (task_map_of tasks) = sw_task_id ` set tasks"
  by (simp add: task_map_of_def fold_setitem_keys)

lemma task_of_id: "tid \<in> sw_task_id ` set tasks \<Longrightarrow> sw_task_id (task_of tasks tid) = tid"
proof -
  assume "tid \<in> sw_task_id ` set tasks"
  then have "tid \<in> fst ` set (task_map_of tasks)" by (simp add: task_map_keys)
  then obtain t where "map_of (task_map_of tasks) tid = Some t"
    by (metis map_of_eq_None_iff not_Some_eq)
  then show ?thesis using task_map_of_id[of tasks tid t] by (simp add: task_of_def)
qed

lemma ready_tasks_eq:
  "set rem \<subseteq> sw_task_id ` set tasks \<Longrightarrow>
   ready_tasks (task_map_of tasks) c rem =
     Inr (map (task_of tasks) (ready_done (deps_wr tasks) c rem))"
proof (induction rem)
  case Nil
  then show ?case by (simp add: ready_done_def)
next
  case (Cons a rem)
  then have "a \<in> fst ` set (task_map_of tasks)" by (simp add: task_map_keys)
  then obtain t where t: "map_of (task_map_of tasks) a = Some t"
    by (metis map_of_eq_None_iff not_Some_eq)
  then have "task_of tasks a = t" by (simp add: task_of_def)
  with Cons t show ?case
    by (simp add: py_getitem_def ready_done_def deps_wr_def)
qed

lemma map_id_task_of:
  "set xs \<subseteq> sw_task_id ` set tasks \<Longrightarrow> map sw_task_id (map (task_of tasks) xs) = xs"
  by (induction xs) (auto simp: task_of_id)

lemma beo_loop_levels:
  "set rem \<subseteq> sw_task_id ` set tasks \<Longrightarrow>
   beo_loop tasks c rem levels =
     Inr (levels @ map (map (task_of tasks)) (done_levels (deps_wr tasks) c rem))"
proof (induction "length rem" arbitrary: rem c levels rule: less_induct)
  case less
  let ?r = "ready_done (deps_wr tasks) c rem"
  let ?rem' = "filter (\<lambda>n. n \<notin> set ?r) rem"
  note rt = ready_tasks_eq[OF less.prems, of c]
  show ?case
  proof (cases "?r = []")
    case True
    with rt show ?thesis
      by (subst beo_loop.simps) (simp add: done_levels_Nil)
  next
    case False
    then have "hd ?r \<in> set ?r" by (rule hd_in_set)
    then obtain x where x: "x \<in> set ?r" ..
    then have xr: "x \<in> set rem" using ready_done_subset[of "deps_wr tasks" c rem] by auto
    with x have len: "length ?rem' < length rem" by (auto intro!: length_filter_less)
    have sub: "set ?rem' \<subseteq> sw_task_id ` set tasks" using less.prems by auto
    have rsub: "set ?r \<subseteq> sw_task_id ` set tasks"
      using less.prems ready_done_subset[of "deps_wr tasks" c rem] by auto
    have ids: "map sw_task_id (map (task_of tasks) ?r) = ?r"
      using rsub by (rule map_id_task_of)
    have "beo_loop tasks (c @ ?r) ?rem' (levels @ [map (task_of tasks) ?r]) =
          Inr ((levels @ [map (task_of tasks) ?r]) @
               map (map (task_of tasks)) (done_levels (deps_wr tasks) (c @ ?r) ?rem'))"
      by (rule less.hyps[OF len sub])
    moreover have "rem \<noteq> []" using xr by auto
    moreover have "map (task_of tasks) ?r \<noteq> []" using False by simp
    ultimately show ?thesis
      using rt ids by (subst beo_loop.simps) (simp add: done_levels_Cons[OF False])
  qed
qed

lemma build_execution_order_levels:
  "build_execution_order tasks =
     Inr (map (map (task_of tasks))
            (done_levels (deps_wr tasks) [] (remdups (map sw_task_id tasks))))"
  unfolding build_execution_order_def
  using beo_loop_levels[of "remdups (map sw_task_id tasks)" tasks "[]" "[]"] by simp

lemma set_ids_of: "set (ids_of tasks) = sw_task_id ` set tasks"
  by (simp add: ids_of_def)

lemma id_levels_subset: "xs \<in> set (id_levels tasks) \<Longrightarrow> set xs \<subseteq> sw_task_id ` set tasks"
  using done_subset[of "deps_wr tasks" "[]" "ids_of tasks"]
  by (auto simp: id_levels_def set_ids_of)

lemma beo_id_levels:
  "build_execution_order tasks = Inr (map (map (task_of tasks)) (id_levels tasks))"
  by (simp add: build_execution_order_levels id_levels_def ids_of_def)

lemma id_levels_ids:
  "map (map sw_task_id) (map (map (task_of tasks)) (id_levels tasks)) = id_levels tasks"
proof -
  have "map (map sw_task_id) (map (map (task_of tasks)) xss) = xss"
    if "\<And>xs. xs \<in> set xss \<Longrightarrow> set xs \<subseteq> sw_task_id ` set tasks" for xss
    using that
  proof (induction xss)
    case Nil
    then show ?case by simp
  next
    case (Cons a xss)
    have "map sw_task_id (map (task_of tasks) a) = a"
      by (rule map_id_task_of) (rule Cons.prems, simp)
    moreover have "map (map sw_task_id) (map (map (task_of tasks)) xss) = xss"
      by (rule Cons.IH) (rule Cons.prems, simp)
    ultimately show ?case by simp
  qed
  then show ?thesis using id_levels_subset by blast
qed

lemma beo_levels_ids:
  assumes "build_execution_order tasks = Inr levels"
  shows "map (map sw_task_id) levels = id_levels tasks"
    and "levels = map (map (task_of tasks)) (id_levels tasks)"
  using assms id_levels_ids[of tasks] by (simp_all add: beo_id_levels)

lemma beo_nth_ids:
  assumes "build_execution_order tasks = Inr levels" and "j < length levels"
  shows "set (id_levels tasks ! j) = sw_task_id ` set (levels ! j)"
    and "levels ! j = map (task_of tasks) (id_levels tasks ! j)"
proof -
  from beo_levels_ids(1)[OF assms(1)] have e: "id_levels tasks = map (map sw_task_id) levels" by simp
  then show "set (id_levels tasks ! j) = sw_task_id ` set (levels ! j)"
    using assms(2) by simp
  from beo_levels_ids(2)[OF assms(1)] assms(2)
  show "levels ! j = map (task_of tasks) (id_levels tasks ! j)"
    by (metis length_map nth_map)
qed

lemma beo_concat_ids:
  assumes "build_execution_order tasks = Inr levels"
  shows "map sw_task_id (concat levels) = concat (id_levels tasks)"
  using beo_levels_ids(1)[OF assms] by (simp add: map_concat)

lemma beo_distinct:
  assumes "build_execution_order tasks = Inr levels"
  shows "distinct (map sw_task_id (concat levels))"
  unfolding beo_concat_ids[OF assms] id_levels_def
  by (rule done_distinct) (simp add: ids_of_def)

lemma beo_deps_earlier:
  assumes b: "build_execution_order tasks = Inr levels"
    and j: "j < length levels" and t: "t \<in> set (levels ! j)" and d: "d \<in> set (sw_dependencies t)"
  shows "\<exists>i<j. d \<in> sw_task_id ` set (levels ! i)"
proof -
  from beo_nth_ids(2)[OF b j] t obtain n where n: "n \<in> set (id_levels tasks ! j)" "t = task_of tasks n"
    by auto
  from beo_levels_ids(1)[OF b] j have jl: "j < length (id_levels tasks)"
    by (metis length_map)
  from n d have "d \<in> set (deps_wr tasks n)" by (simp add: deps_wr_def)
  from done_deps_earlier[OF jl[unfolded id_levels_def] n(1)[unfolded id_levels_def] this]
  obtain i where i: "i < j" "d \<in> set (id_levels tasks ! i)" by (auto simp: id_levels_def)
  with j beo_nth_ids(1)[OF b, of i] show ?thesis by auto
qed

lemma dep_rel_wr_iff:
  "(a, b) \<in> dep_rel_wr tasks \<longleftrightarrow> a \<in> sw_task_id ` set tasks \<and> b \<in> set (deps_wr tasks a)"
proof
  assume "(a, b) \<in> dep_rel_wr tasks"
  then obtain t where t: "map_of (task_map_of tasks) a = Some t" "b \<in> set (sw_dependencies t)"
    by (auto simp: dep_rel_wr_def)
  from t(1) have "(a, t) \<in> set (task_map_of tasks)" by (rule map_of_SomeD)
  then have "a \<in> fst ` set (task_map_of tasks)" by force
  with t show "a \<in> sw_task_id ` set tasks \<and> b \<in> set (deps_wr tasks a)"
    by (simp add: task_map_keys deps_wr_def task_of_def)
next
  assume a: "a \<in> sw_task_id ` set tasks \<and> b \<in> set (deps_wr tasks a)"
  then have "a \<in> fst ` set (task_map_of tasks)" by (simp add: task_map_keys)
  then obtain t where "map_of (task_map_of tasks) a = Some t"
    by (metis map_of_eq_None_iff not_Some_eq)
  with a show "(a, b) \<in> dep_rel_wr tasks"
    by (auto simp: dep_rel_wr_def deps_wr_def task_of_def)
qed

lemma beo_complete:
  assumes b: "build_execution_order tasks = Inr levels"
    and closed: "Range (dep_rel_wr tasks) \<subseteq> sw_task_id ` set tasks"
    and acyc: "acyclic (dep_rel_wr tasks)"
  shows "sw_task_id ` set (concat levels) = sw_task_id ` set tasks"
proof -
  let ?deps = "deps_wr tasks" and ?ids = "ids_of tasks"
  have cl: "set (?deps n) \<subseteq> set [] \<union> set ?ids" if "n \<in> set ?ids" for n
  proof
    fix d assume "d \<in> set (?deps n)"
    with that have "(n, d) \<in> dep_rel_wr tasks" by (simp add: dep_rel_wr_iff set_ids_of)
    then have "d \<in> Range (dep_rel_wr tasks)" by (rule RangeI)
    with closed show "d \<in> set [] \<union> set ?ids" by (auto simp: set_ids_of)
  qed
  have "id_levels tasks = kahn_levels ?deps ?ids"
    unfolding id_levels_def by (rule done_levels_kahn) (use cl in auto)
  moreover have "restr ?deps (set ?ids) \<subseteq> dep_rel_wr tasks"
    by (auto simp: restr_def dep_rel_wr_iff set_ids_of)
  with acyc have "acyclic (restr ?deps (set ?ids))" by (rule acyclic_subset)
  then have "set (concat (kahn_levels ?deps ?ids)) = set ?ids" by (rule kahn_complete)
  ultimately have "set (concat (id_levels tasks)) = sw_task_id ` set tasks"
    by (simp add: set_ids_of)
  then show ?thesis
    using beo_concat_ids[OF b] by (metis set_map)
qed

lemma beo_trancl_earlier:
  assumes b: "build_execution_order tasks = Inr levels"
    and r: "(a, m) \<in> (dep_rel_wr tasks)\<^sup>+"
  shows "j < length levels \<Longrightarrow> a \<in> sw_task_id ` set (levels ! j) \<Longrightarrow>
         \<exists>i<j. m \<in> sw_task_id ` set (levels ! i)"
  using r
proof (induction rule: trancl_induct)
  case (base y)
  from base(3) obtain t where t: "t \<in> set (levels ! j)" "sw_task_id t = a" by auto
  with beo_nth_ids(2)[OF b base(2)] obtain n where n: "n \<in> set (id_levels tasks ! j)" "t = task_of tasks n"
    by auto
  from beo_levels_ids(1)[OF b] base(2) have "id_levels tasks ! j \<in> set (id_levels tasks)"
    by (metis length_map nth_mem)
  with n id_levels_subset have "n \<in> sw_task_id ` set tasks" by blast
  with n t have "n = a" by (simp add: task_of_id)
  with base(1) n have "y \<in> set (sw_dependencies t)" by (simp add: dep_rel_wr_iff deps_wr_def)
  from beo_deps_earlier[OF b base(2) t(1) this] show ?case .
next
  case (step y z)
  then obtain i where i: "i < j" "y \<in> sw_task_id ` set (levels ! i)" by blast
  with step.prems(1) have il: "i < length levels" by simp
  from i(2) obtain t where t: "t \<in> set (levels ! i)" "sw_task_id t = y" by auto
  with beo_nth_ids(2)[OF b il] obtain n where n: "n \<in> set (id_levels tasks ! i)" "t = task_of tasks n"
    by auto
  from beo_levels_ids(1)[OF b] il have "id_levels tasks ! i \<in> set (id_levels tasks)"
    by (metis length_map nth_mem)
  with n id_levels_subset have "n \<in> sw_task_id ` set tasks" by blast
  with n t have "n = y" by (simp add: task_of_id)
  with step.hyps(2) n have "z \<in> set (sw_dependencies t)" by (simp add: dep_rel_wr_iff deps_wr_def)
  from beo_deps_earlier[OF b il t(1) this] obtain i' where "i' < i" "z \<in> sw_task_id ` set (levels ! i')"
    by blast
  with i(1) show ?case by (intro exI[of _ i']) simp
qed

lemma beo_cycle_omitted:
  assumes b: "build_execution_order tasks = Inr levels"
    and r: "(n, n) \<in> (dep_rel_wr tasks)\<^sup>+"
  shows "n \<notin> sw_task_id ` set (concat levels)"
proof -
  have "j < length levels \<Longrightarrow> n \<notin> sw_task_id ` set (levels ! j)" for j
  proof (induction j rule: less_induct)
    case (less j)
    show ?case
    proof
      assume "n \<in> sw_task_id ` set (levels ! j)"
      from beo_trancl_earlier[OF b r less.prems this]
      obtain i where "i < j" "n \<in> sw_task_id ` set (levels ! i)" by blast
      with less show False by simp
    qed
  qed
  then have "\<forall>xs \<in> set levels. n \<notin> sw_task_id ` set xs"
    unfolding all_set_conv_all_nth by simp
  then show ?thesis by auto
qed

section \<open>Facts about the two schedulers\<close>

lemma task_map_of_mem: "map_of (task_map_of tasks) tid = Some t \<Longrightarrow> t \<in> set tasks"
proof -
  have gen: "(\<And>k v. map_of m k = Some v \<Longrightarrow> v \<in> set tasks0) \<Longrightarrow> set ts \<subseteq> set tasks0 \<Longrightarrow>
        map_of (fold (\<lambda>t m. py_setitem m (sw_task_id t) t) ts m) tid = Some t \<Longrightarrow>
        t \<in> set tasks0" for m tasks0 ts
  proof (induction ts arbitrary: m)
    case Nil
    then show ?case by simp
  next
    case (Cons a ts)
    have inv: "v \<in> set tasks0" if "map_of (py_setitem m (sw_task_id a) a) k = Some v" for k v
      using that Cons.prems(1)[of k v] Cons.prems(2)
      by (auto simp: py_setitem_def update_conv' split: if_splits)
    from Cons.prems(2) have sub: "set ts \<subseteq> set tasks0" by simp
    from Cons.prems(3) have "map_of (fold (\<lambda>t m. py_setitem m (sw_task_id t) t) ts
      (py_setitem m (sw_task_id a) a)) tid = Some t" by simp
    from Cons.IH[OF inv sub this] show ?case .
  qed
  from gen[of "[]" tasks tasks] show "map_of (task_map_of tasks) tid = Some t \<Longrightarrow> t \<in> set tasks"
    by (simp add: task_map_of_def)
qed

lemma no_dangling_closed:
  assumes "no_dangling_wr tasks"
  shows "Range (dep_rel_wr tasks) \<subseteq> sw_task_id ` set tasks"
    and "dep_graph_wr tasks = dep_rel_wr tasks"
proof -
  have r: "b \<in> sw_task_id ` set tasks" if "(a, b) \<in> dep_rel_wr tasks" for a b
  proof -
    from that obtain t where "map_of (task_map_of tasks) a = Some t" "b \<in> set (sw_dependencies t)"
      by (auto simp: dep_rel_wr_def)
    with task_map_of_mem[of tasks a t] assms show ?thesis
      by (auto simp: no_dangling_wr_def)
  qed
  then show "Range (dep_rel_wr tasks) \<subseteq> sw_task_id ` set tasks" by auto
  from r show "dep_graph_wr tasks = dep_rel_wr tasks" by (auto simp: dep_graph_wr_def)
qed

text \<open>\<^verbatim>\<open>build_dag\<close> returns a dictionary: its keys are distinct.\<close>

lemma build_dag_is_dict: "is_dict (build_dag tasks)"
proof -
  have "distinct (map fst m) \<Longrightarrow>
        distinct (map fst (fold (\<lambda>task dag. py_setitem dag (task_id task) (dependencies task)) tasks m))"
    for m
    by (induction tasks arbitrary: m) (simp_all add: py_setitem_def distinct_update)
  from this[of "[]"] show ?thesis by (simp add: build_dag_def is_dict_def)
qed

lemma geo_levels_facts:
  assumes "is_dict dag"
  shows "get_execution_order dag = Inr (kahn_levels (deps_of dag) (map fst dag))"
    and "distinct (concat (kahn_levels (deps_of dag) (map fst dag)))"
    and "set (concat (kahn_levels (deps_of dag) (map fst dag))) \<subseteq> fst ` set dag"
    and "acyclic (dep_graph dag) \<Longrightarrow>
           set (concat (kahn_levels (deps_of dag) (map fst dag))) = fst ` set dag"
    and "j < length (kahn_levels (deps_of dag) (map fst dag)) \<Longrightarrow>
         n \<in> set (kahn_levels (deps_of dag) (map fst dag) ! j) \<Longrightarrow> (n, d) \<in> dep_graph dag \<Longrightarrow>
         \<exists>i<j. d \<in> set (kahn_levels (deps_of dag) (map fst dag) ! i)"
    and "(n, n) \<in> (dep_graph dag)\<^sup>+ \<Longrightarrow>
         n \<notin> set (concat (kahn_levels (deps_of dag) (map fst dag)))"
proof -
  note g = restr_dep_graph[OF assms]
  from assms have d: "distinct (map fst dag)" by (simp add: is_dict_def)
  show "get_execution_order dag = Inr (kahn_levels (deps_of dag) (map fst dag))"
    using assms by (rule get_execution_order_kahn)
  show "distinct (concat (kahn_levels (deps_of dag) (map fst dag)))"
    using d by (rule kahn_distinct)
  show "set (concat (kahn_levels (deps_of dag) (map fst dag))) \<subseteq> fst ` set dag"
    using kahn_subset[of "deps_of dag" "map fst dag"] by simp
  show "set (concat (kahn_levels (deps_of dag) (map fst dag))) = fst ` set dag"
    if "acyclic (dep_graph dag)"
    using kahn_complete[of "deps_of dag" "map fst dag"] that g by simp
  show "\<exists>i<j. d \<in> set (kahn_levels (deps_of dag) (map fst dag) ! i)"
    if "j < length (kahn_levels (deps_of dag) (map fst dag))"
      "n \<in> set (kahn_levels (deps_of dag) (map fst dag) ! j)" "(n, d) \<in> dep_graph dag"
  proof -
    from that(3) have "(n, d) \<in> restr (deps_of dag) (set (map fst dag))" by (simp only: g)
    then have "d \<in> set (deps_of dag n)" "d \<in> set (map fst dag)"
      by (simp_all add: restr_def)
    with kahn_deps_earlier[OF that(1,2)] show ?thesis by blast
  qed
  show "n \<notin> set (concat (kahn_levels (deps_of dag) (map fst dag)))"
    if "(n, n) \<in> (dep_graph dag)\<^sup>+"
    using kahn_cycle_omitted[of n "deps_of dag" "map fst dag"] that g by simp
qed

text \<open>
  Two inputs used to instantiate the theorems: a diamond with a dependency id \<open>X\<close> that
  is no key of the graph, and the fixed template of \<^verbatim>\<open>workflow_runner.py\<close>.
\<close>

lemma example_dag_acyclic:
  "acyclic (dep_graph [(''A'', []), (''B'', [''A'']), (''C'', [''A'', ''X'']), (''D'', [''B'', ''C''])])"
proof (rule acyclicI_order[where f = "\<lambda>s. if s = ''A'' then 0 else if s = ''D'' then 2 else (1::nat)"])
  fix a b
  assume "(a, b) \<in> dep_graph [(''A'', []), (''B'', [''A'']), (''C'', [''A'', ''X'']), (''D'', [''B'', ''C''])]"
  then show "(if b = ''A'' then 0 else if b = ''D'' then 2 else (1::nat))
           < (if a = ''A'' then 0 else if a = ''D'' then 2 else (1::nat))"
    by (auto simp: dep_graph_def)
qed

lemma template_task_map:
  "task_map_of (decompose_task_wr r) = map (\<lambda>t. (sw_task_id t, t)) (decompose_task_wr r)"
  by (simp add: task_map_of_def decompose_task_wr_def py_setitem_def new_SwarmTask_def)

lemma template_rank:
  assumes "(a, b) \<in> dep_rel_wr (decompose_task_wr r)"
  shows "(of_char (b ! 7) :: nat) < of_char (a ! 7)"
proof -
  from assms obtain t where "map_of (task_map_of (decompose_task_wr r)) a = Some t"
    and b: "b \<in> set (sw_dependencies t)"
    by (auto simp: dep_rel_wr_def)
  then have "(a, t) \<in> set (task_map_of (decompose_task_wr r))" by (simp add: map_of_SomeD)
  then have "t \<in> set (decompose_task_wr r)" and "a = sw_task_id t"
    unfolding template_task_map by auto
  with b show ?thesis
    by (auto simp: decompose_task_wr_def new_SwarmTask_def)
qed

lemma template_acyclic: "acyclic (dep_graph_wr (decompose_task_wr r))"
proof -
  have "acyclic (dep_rel_wr (decompose_task_wr r))"
    by (rule acyclicI_order[where f = "\<lambda>s. (of_char (s ! 7) :: nat)"]) (rule template_rank)
  moreover have "dep_graph_wr (decompose_task_wr r) \<subseteq> dep_rel_wr (decompose_task_wr r)"
    by (auto simp: dep_graph_wr_def)
  ultimately show ?thesis by (rule acyclic_subset)
qed

lemma template_no_dangling: "no_dangling_wr (decompose_task_wr r)"
  by (simp add: no_dangling_wr_def decompose_task_wr_def new_SwarmTask_def)

section \<open>Claims about the level schedulers\<close>

text \<open>
  Claim C1, as amended. When the dependency graph restricted to the ids of the set is
  acyclic, \<^verbatim>\<open>get_execution_order\<close> returns levels whose concatenation holds every key of
  the graph exactly once, and every dependency of a task that is a key lies in a strictly
  earlier level than the task. \<^verbatim>\<open>build_execution_order\<close> does the same for a task list in
  which, in addition, every dependency id is the id of a task of the list; there every
  dependency of a scheduled task lies in a strictly earlier level.
\<close>

theorem levels_of_acyclic_graph:
  "(is_dict dag \<and> acyclic (dep_graph dag) \<longrightarrow>
      (\<exists>levels. get_execution_order dag = Inr levels \<and>
         distinct (concat levels) \<and> set (concat levels) = fst ` set dag \<and>
         (\<forall>j n d. j < length levels \<and> n \<in> set (levels ! j) \<and> (n, d) \<in> dep_graph dag \<longrightarrow>
            (\<exists>i<j. d \<in> set (levels ! i))))) \<and>
   (no_dangling_wr tasks \<and> acyclic (dep_graph_wr tasks) \<longrightarrow>
      (\<exists>levels. build_execution_order tasks = Inr levels \<and>
         distinct (map sw_task_id (concat levels)) \<and>
         sw_task_id ` set (concat levels) = sw_task_id ` set tasks \<and>
         (\<forall>j t d. j < length levels \<and> t \<in> set (levels ! j) \<and> d \<in> set (sw_dependencies t) \<longrightarrow>
            (\<exists>i<j. d \<in> sw_task_id ` set (levels ! i)))))"
proof (intro conjI impI)
  assume a: "is_dict dag \<and> acyclic (dep_graph dag)"
  let ?L = "kahn_levels (deps_of dag) (map fst dag)"
  from a have dict: "is_dict dag" and acyc: "acyclic (dep_graph dag)" by simp_all
  have "get_execution_order dag = Inr ?L" by (rule geo_levels_facts(1)[OF dict])
  moreover have "distinct (concat ?L)" by (rule geo_levels_facts(2)[OF dict])
  moreover have "set (concat ?L) = fst ` set dag" by (rule geo_levels_facts(4)[OF dict acyc])
  moreover have "\<forall>j n d. j < length ?L \<and> n \<in> set (?L ! j) \<and> (n, d) \<in> dep_graph dag \<longrightarrow>
            (\<exists>i<j. d \<in> set (?L ! i))"
    using geo_levels_facts(5)[OF dict] by blast
  ultimately show "\<exists>levels. get_execution_order dag = Inr levels \<and>
         distinct (concat levels) \<and> set (concat levels) = fst ` set dag \<and>
         (\<forall>j n d. j < length levels \<and> n \<in> set (levels ! j) \<and> (n, d) \<in> dep_graph dag \<longrightarrow>
            (\<exists>i<j. d \<in> set (levels ! i)))" by blast
next
  assume a: "no_dangling_wr tasks \<and> acyclic (dep_graph_wr tasks)"
  then have nd: "no_dangling_wr tasks" by simp
  from a no_dangling_closed(2)[OF nd] have acyc: "acyclic (dep_rel_wr tasks)" by simp
  obtain levels where b: "build_execution_order tasks = Inr levels"
    using beo_id_levels by blast
  have "distinct (map sw_task_id (concat levels))" using b by (rule beo_distinct)
  moreover have "sw_task_id ` set (concat levels) = sw_task_id ` set tasks"
    using b no_dangling_closed(1)[OF nd] acyc by (rule beo_complete)
  moreover have "\<forall>j t d. j < length levels \<and> t \<in> set (levels ! j) \<and> d \<in> set (sw_dependencies t) \<longrightarrow>
            (\<exists>i<j. d \<in> sw_task_id ` set (levels ! i))"
    using beo_deps_earlier[OF b] by blast
  ultimately show "\<exists>levels. build_execution_order tasks = Inr levels \<and>
         distinct (map sw_task_id (concat levels)) \<and>
         sw_task_id ` set (concat levels) = sw_task_id ` set tasks \<and>
         (\<forall>j t d. j < length levels \<and> t \<in> set (levels ! j) \<and> d \<in> set (sw_dependencies t) \<longrightarrow>
            (\<exists>i<j. d \<in> sw_task_id ` set (levels ! i)))" using b by blast
qed

text \<open>
  The theorem at the diamond (with its dangling id) and at the fixed template: both
  hypotheses hold there and all ids are scheduled.
\<close>

theorem levels_of_acyclic_graph_witness:
  "(\<exists>levels. get_execution_order
        [(''A'', []), (''B'', [''A'']), (''C'', [''A'', ''X'']), (''D'', [''B'', ''C''])] = Inr levels \<and>
      distinct (concat levels) \<and> set (concat levels) = {''A'', ''B'', ''C'', ''D''}) \<and>
   (\<exists>levels. build_execution_order (decompose_task_wr []) = Inr levels \<and>
      distinct (map sw_task_id (concat levels)) \<and>
      sw_task_id ` set (concat levels) =
        {''task_001'', ''task_002'', ''task_003'', ''task_004'', ''task_005'', ''task_006''})"
proof -
  let ?dag = "[(''A'', []), (''B'', [''A'']), (''C'', [''A'', ''X'']), (''D'', [''B'', ''C''])]"
  have 1: "is_dict ?dag \<and> acyclic (dep_graph ?dag)"
    using example_dag_acyclic by (simp add: is_dict_def)
  have 2: "no_dangling_wr (decompose_task_wr []) \<and> acyclic (dep_graph_wr (decompose_task_wr []))"
    using template_no_dangling template_acyclic by simp
  have 3: "fst ` set ?dag = {''A'', ''B'', ''C'', ''D''}" by simp
  have 4: "sw_task_id ` set (decompose_task_wr []) =
        {''task_001'', ''task_002'', ''task_003'', ''task_004'', ''task_005'', ''task_006''}"
    by (simp add: decompose_task_wr_def new_SwarmTask_def)
  note t = levels_of_acyclic_graph[of ?dag "decompose_task_wr []"]
  from t[THEN conjunct1, THEN mp, OF 1] obtain L where
    L: "get_execution_order ?dag = Inr L" "distinct (concat L)" "set (concat L) = fst ` set ?dag"
    by (elim exE conjE)
  from t[THEN conjunct2, THEN mp, OF 2] obtain M where
    M: "build_execution_order (decompose_task_wr []) = Inr M" "distinct (map sw_task_id (concat M))"
      "sw_task_id ` set (concat M) = sw_task_id ` set (decompose_task_wr [])"
    by (elim exE conjE)
  from L(3) have L3: "set (concat L) = {''A'', ''B'', ''C'', ''D''}" by (simp only: 3)
  from M(3) have M3: "sw_task_id ` set (concat M) =
        {''task_001'', ''task_002'', ''task_003'', ''task_004'', ''task_005'', ''task_006''}"
    by (simp only: 4)
  show ?thesis
  proof (intro conjI)
    show "\<exists>levels. get_execution_order ?dag = Inr levels \<and>
      distinct (concat levels) \<and> set (concat levels) = {''A'', ''B'', ''C'', ''D''}"
      using L(1,2) L3 by (intro exI[of _ L] conjI)
    show "\<exists>levels. build_execution_order (decompose_task_wr []) = Inr levels \<and>
      distinct (map sw_task_id (concat levels)) \<and>
      sw_task_id ` set (concat levels) =
        {''task_001'', ''task_002'', ''task_003'', ''task_004'', ''task_005'', ''task_006''}"
      using M(1,2) M3 by (intro exI[of _ M] conjI)
  qed
qed

text \<open>
  Claim C1 as stated fails for \<^verbatim>\<open>build_execution_order\<close>: one task \<open>A\<close> whose only
  dependency \<open>X\<close> is no task of the list has an acyclic (empty) restricted graph, and the
  returned level list is empty, so \<open>A\<close> is in no level.
\<close>

theorem dangling_dependency_counterexample:
  "acyclic (dep_graph_wr [new_SwarmTask ''A'' [] ''coder'' [''X'']]) \<and>
   build_execution_order [new_SwarmTask ''A'' [] ''coder'' [''X'']] = Inr []"
proof
  have "(a, b) \<notin> dep_graph_wr [new_SwarmTask ''A'' [] ''coder'' [''X'']]" for a b
    by (auto simp: dep_graph_wr_def dep_rel_wr_def task_map_of_def py_setitem_def new_SwarmTask_def
          split: if_splits)
  then have "dep_graph_wr [new_SwarmTask ''A'' [] ''coder'' [''X'']] = {}" by auto
  then show "acyclic (dep_graph_wr [new_SwarmTask ''A'' [] ''coder'' [''X'']])"
    by (simp add: acyclic_def)
  show "build_execution_order [new_SwarmTask ''A'' [] ''coder'' [''X'']] = Inr []"
    by (simp add: build_execution_order_def beo_loop.simps task_map_of_def py_setitem_def
          py_getitem_def new_SwarmTask_def)
qed

text \<open>
  Claim C2, as amended. For a task set with a dependency cycle both schedulers terminate
  and return a level list normally, without any error; no task on the cycle is in the
  returned levels.
\<close>

theorem cycle_silently_omitted:
  "(is_dict dag \<and> (n, n) \<in> (dep_graph dag)\<^sup>+ \<longrightarrow>
      (\<exists>levels. get_execution_order dag = Inr levels \<and> n \<notin> set (concat levels))) \<and>
   ((n, n) \<in> (dep_rel_wr tasks)\<^sup>+ \<longrightarrow>
      (\<exists>levels. build_execution_order tasks = Inr levels \<and>
         n \<notin> sw_task_id ` set (concat levels)))"
proof (intro conjI impI)
  assume a: "is_dict dag \<and> (n, n) \<in> (dep_graph dag)\<^sup>+"
  then have "get_execution_order dag = Inr (kahn_levels (deps_of dag) (map fst dag))"
    and "n \<notin> set (concat (kahn_levels (deps_of dag) (map fst dag)))"
    using geo_levels_facts(1,6)[of dag] by simp_all
  then show "\<exists>levels. get_execution_order dag = Inr levels \<and> n \<notin> set (concat levels)"
    by blast
next
  assume a: "(n, n) \<in> (dep_rel_wr tasks)\<^sup>+"
  obtain levels where b: "build_execution_order tasks = Inr levels"
    using beo_id_levels by blast
  from beo_cycle_omitted[OF b a] b
  show "\<exists>levels. build_execution_order tasks = Inr levels \<and>
         n \<notin> sw_task_id ` set (concat levels)" by blast
qed

text \<open>The theorem at a cycle between \<open>A\<close> and \<open>B\<close> beside an independent task \<open>C\<close>.\<close>

theorem cycle_silently_omitted_witness:
  "(\<exists>levels. get_execution_order [(''A'', [''B'']), (''B'', [''A'']), (''C'', [])] = Inr levels \<and>
      ''A'' \<notin> set (concat levels)) \<and>
   (\<exists>levels. build_execution_order
        [new_SwarmTask ''A'' [] ''coder'' [''B''], new_SwarmTask ''B'' [] ''coder'' [''A''],
         new_SwarmTask ''C'' [] ''coder'' []] = Inr levels \<and>
      ''A'' \<notin> sw_task_id ` set (concat levels))"
proof -
  let ?dag = "[(''A'', [''B'']), (''B'', [''A'']), (''C'', [])]"
  let ?tasks = "[new_SwarmTask ''A'' [] ''coder'' [''B''], new_SwarmTask ''B'' [] ''coder'' [''A''],
         new_SwarmTask ''C'' [] ''coder'' []]"
  have "(''A'', ''B'') \<in> dep_graph ?dag" "(''B'', ''A'') \<in> dep_graph ?dag"
    by (simp_all add: dep_graph_def)
  then have "(''A'', ''A'') \<in> (dep_graph ?dag)\<^sup>+" by (rule trancl_into_trancl[OF r_into_trancl])
  then have 1: "is_dict ?dag \<and> (''A'', ''A'') \<in> (dep_graph ?dag)\<^sup>+" by (simp add: is_dict_def)
  have "(''A'', ''B'') \<in> dep_rel_wr ?tasks" "(''B'', ''A'') \<in> dep_rel_wr ?tasks"
    by (simp_all add: dep_rel_wr_def task_map_of_def py_setitem_def new_SwarmTask_def)
  then have 2: "(''A'', ''A'') \<in> (dep_rel_wr ?tasks)\<^sup>+" by (rule trancl_into_trancl[OF r_into_trancl])
  note t = cycle_silently_omitted[of ?dag "''A''" ?tasks]
  show ?thesis
    using t[THEN conjunct1, THEN mp, OF 1] t[THEN conjunct2, THEN mp, OF 2] by (rule conjI)
qed

text \<open>
  Claim C2 as stated fails: for the two-task cycle both schedulers return the empty level
  list as an ordinary result, not an error, and the two tasks are missing from it.
\<close>

theorem cycle_counterexample:
  "get_execution_order [(''A'', [''B'']), (''B'', [''A''])] = Inr [] \<and>
   build_execution_order
     [new_SwarmTask ''A'' [] ''coder'' [''B''], new_SwarmTask ''B'' [] ''coder'' [''A'']] = Inr []"
  by (simp add: get_execution_order_def geo_loop.simps build_execution_order_def beo_loop.simps
        task_map_of_def py_setitem_def py_getitem_def new_SwarmTask_def)

section \<open>Claims about the analyzer and the decomposer\<close>

text \<open>
  Two requests: the four keywords \<^verbatim>\<open>U+5F00 U+53D1\<close>, \<^verbatim>\<open>U+67B6 U+6784\<close>,
  \<^verbatim>\<open>U+7CFB U+7EDF\<close>, \<^verbatim>\<open>U+91CD U+6784\<close> separated by spaces, and the keyword
  \<^verbatim>\<open>U+7CFB U+7EDF\<close> followed by the hint term \<^verbatim>\<open>U+5E76 U+884C\<close>.
\<close>

definition request_four_keywords :: ustr where
  "request_four_keywords =
     [0x5F00, 0x53D1, 0x20, 0x67B6, 0x6784, 0x20, 0x7CFB, 0x7EDF, 0x20, 0x91CD, 0x6784]"

definition request_medium_parallel :: ustr where
  "request_medium_parallel = [0x7CFB, 0x7EDF, 0x5E76, 0x884C]"

lemma score_four_keywords:
  "complexity_score request_four_keywords = 8"
  "complexity_score_wr request_four_keywords = 8"
  "classify_task_type request_four_keywords = ''refactor''"
  by (simp_all add: complexity_score_def complexity_score_wr_def classify_task_type_def
        request_four_keywords_def keywords_complex_def keywords_simple_def
        complex_keywords_wr_def simple_keywords_wr_def py_in_def sublist_Cons_right)

lemma score_medium_parallel:
  "complexity_score request_medium_parallel = 2"
  "complexity_score_wr request_medium_parallel = 2"
  "parallel_hint request_medium_parallel"
  by (simp_all add: complexity_score_def complexity_score_wr_def parallel_hint_def
        request_medium_parallel_def keywords_complex_def keywords_simple_def
        complex_keywords_wr_def simple_keywords_wr_def py_in_def sublist_Cons_right)

text \<open>
  The list displays of \<^verbatim>\<open>decompose_task\<close> index the list \<^verbatim>\<open>tasks\<close> while it is still
  empty: the templates of \<^verbatim>\<open>refactor\<close> and \<^verbatim>\<open>test\<close> raise \<^verbatim>\<open>IndexError\<close>, and the
  guards of the \<^verbatim>\<open>development\<close> template leave every dependency list empty.
\<close>

lemma decompose_task_raises:
  "task_type a = ''refactor'' \<or> task_type a = ''test'' \<Longrightarrow>
   decompose_task ids clock a = Inl IndexError"
  unfolding decompose_task_def Let_def
  by (elim disjE) (simp_all add: task_at_def bind_err_def)

lemma decompose_task_development:
  "task_type a = ''development'' \<Longrightarrow>
   \<exists>ts. decompose_task ids clock a = Inr ts \<and> length ts = 6 \<and>
        map dependencies ts = [[], [], [], [], [], []]"
  unfolding decompose_task_def Let_def
  by (simp add: bind_err_def new_SubTask_def)

text \<open>
  The class \<^verbatim>\<open>SwarmOrchestrator\<close> of \<^verbatim>\<open>workflow_runner.py\<close> handles the request of the
  four keywords as the analysis says it should: \<^verbatim>\<open>analyze_complexity\<close> gives
  \<^verbatim>\<open>complex\<close> and \<^verbatim>\<open>True\<close>, and the decomposer returns the six tasks of its fixed
  template, with these ids, worker types, dependencies and descriptions.
\<close>

lemma four_keyword_request_wr:
  "analyze_complexity request_four_keywords = (''complex'', True) \<and>
   length (decompose_task_wr request_four_keywords) = 6 \<and>
   map sw_task_id (decompose_task_wr request_four_keywords) =
     [''task_001'', ''task_002'', ''task_003'', ''task_004'', ''task_005'', ''task_006''] \<and>
   map sw_worker_type (decompose_task_wr request_four_keywords) =
     [''researcher'', ''coder'', ''coder'', ''tester'', ''writer'', ''reviewer''] \<and>
   map sw_dependencies (decompose_task_wr request_four_keywords) =
     [[], [''task_001''], [''task_002''], [''task_003''], [''task_003''],
      [''task_003'', ''task_004'', ''task_005'']] \<and>
   map sw_description (decompose_task_wr request_four_keywords) =
     [[0x8C03, 0x7814, 0x6280, 0x672F, 0x65B9, 0x6848],
      [0x8BBE, 0x8BA1, 0x7CFB, 0x7EDF, 0x67B6, 0x6784],
      [0x5B9E, 0x73B0, 0x6838, 0x5FC3, 0x529F, 0x80FD],
      [0x7F16, 0x5199, 0x6D4B, 0x8BD5, 0x7528, 0x4F8B],
      [0x7F16, 0x5199, 0x6587, 0x6863],
      [0x4EE3, 0x7801, 0x5BA1, 0x67E5]] \<and>
   map sw_status (decompose_task_wr request_four_keywords) =
     [''pending'', ''pending'', ''pending'', ''pending'', ''pending'', ''pending'']"
  by (simp add: score_four_keywords analyze_complexity_def Let_def
        decompose_task_wr_def new_SwarmTask_def)

text \<open>
  Claim C4: a request that holds the four keywords is classified \<^verbatim>\<open>complex\<close> with
  \<^verbatim>\<open>swarm_mode = True\<close>, and the decomposer returns the six tasks of the development
  template. For \<^verbatim>\<open>orchestrator.py\<close> the first half holds and the second does not. The
  request of the four keywords has the score 8 and is analysed as \<^verbatim>\<open>complex\<close> with
  \<^verbatim>\<open>swarm_mode = True\<close>; it holds the keyword \<^verbatim>\<open>U+91CD U+6784\<close>, so its task type is
  \<^verbatim>\<open>refactor\<close>, and on this analysis \<^verbatim>\<open>decompose_task\<close> returns no task list: it
  raises \<^verbatim>\<open>IndexError\<close>, whatever ids and creation times the tasks would have got,
  because the list display of the \<^verbatim>\<open>refactor\<close> template reads \<^verbatim>\<open>tasks[0]\<close> while
  \<^verbatim>\<open>tasks\<close> is still the empty list.
\<close>

theorem four_keyword_request_raises:
  "complexity_score request_four_keywords = 8 \<and>
   complexity (analyze_task request_four_keywords) = ''complex'' \<and>
   swarm_mode (analyze_task request_four_keywords) = True \<and>
   task_type (analyze_task request_four_keywords) = ''refactor'' \<and>
   decompose_task ids clock (analyze_task request_four_keywords) = Inl IndexError"
  by (simp add: score_four_keywords analyze_task_def Let_def decompose_task_def task_at_def
        bind_err_def)

text \<open>
  Claim C5, as amended. For every request, \<^verbatim>\<open>analyze_task\<close> obeys the thresholds:
  a score of at least 4 gives \<^verbatim>\<open>complex\<close> with \<^verbatim>\<open>swarm_mode\<close> true, a score in [2,4)
  gives \<^verbatim>\<open>medium\<close> with \<^verbatim>\<open>swarm_mode\<close> true exactly when the request holds a hint
  term, a score below 2 gives \<^verbatim>\<open>simple\<close> with \<^verbatim>\<open>swarm_mode\<close> false.
  \<^verbatim>\<open>analyze_complexity\<close> obeys the same thresholds for the complexity, and its
  \<^verbatim>\<open>swarm_mode\<close> is true exactly for a score of at least 4.
\<close>

theorem analyzer_thresholds:
  "(complexity_score r \<ge> 4 \<longrightarrow>
      complexity (analyze_task r) = ''complex'' \<and> swarm_mode (analyze_task r)) \<and>
   (2 \<le> complexity_score r \<and> complexity_score r < 4 \<longrightarrow>
      complexity (analyze_task r) = ''medium'' \<and> (swarm_mode (analyze_task r) \<longleftrightarrow> parallel_hint r)) \<and>
   (complexity_score r < 2 \<longrightarrow>
      complexity (analyze_task r) = ''simple'' \<and> \<not> swarm_mode (analyze_task r)) \<and>
   (complexity_score_wr r \<ge> 4 \<longrightarrow> analyze_complexity r = (''complex'', True)) \<and>
   (2 \<le> complexity_score_wr r \<and> complexity_score_wr r < 4 \<longrightarrow>
      analyze_complexity r = (''medium'', False)) \<and>
   (complexity_score_wr r < 2 \<longrightarrow> analyze_complexity r = (''simple'', False))"
  by (simp add: analyze_task_def analyze_complexity_def Let_def)

text \<open>The theorem at the request of score 2 that holds a hint term.\<close>

theorem analyzer_thresholds_witness:
  "complexity (analyze_task request_medium_parallel) = ''medium'' \<and>
   swarm_mode (analyze_task request_medium_parallel) \<and>
   analyze_complexity request_medium_parallel = (''medium'', False)"
  using analyzer_thresholds[of request_medium_parallel]
  by (simp add: score_medium_parallel)

text \<open>
  Claim C5 as stated fails for \<^verbatim>\<open>analyze_complexity\<close>: the request has score 2 and
  holds a hint term, and \<^verbatim>\<open>swarm_mode\<close> is false.
\<close>

theorem analyze_complexity_counterexample:
  "complexity_score_wr request_medium_parallel = 2 \<and>
   parallel_hint request_medium_parallel \<and>
   analyze_complexity request_medium_parallel = (''medium'', False)"
  by (simp add: score_medium_parallel analyze_complexity_def)

section \<open>Claims about the persisted queue\<close>

lemma get_progress_Some:
  "get_progress (Some q) =
     Inr \<lparr>cnt_total = length (q_tasks q),
          cnt_completed = count_status ''completed'' (q_tasks q),
          cnt_running = count_status ''running'' (q_tasks q),
          cnt_pending = count_status ''pending'' (q_tasks q),
          cnt_failed = count_status ''failed'' (q_tasks q),
          progress_percent =
            Some (if length (q_tasks q) > 0
                  then real (count_status ''completed'' (q_tasks q)) / real (length (q_tasks q)) * 100
                  else 0)\<rparr>"
  by (simp add: get_progress_def read_queue_def Let_def bind_err_def py_truediv_def)


lemma count_status_le: "count_status s tasks \<le> length tasks"
  by (simp add: count_status_def)

text \<open>Queues for the instances: a task with a given id, status and dependency list.\<close>

definition example_task :: "string \<Rightarrow> string \<Rightarrow> string list \<Rightarrow> SubTask" where
  "example_task tid st deps = (new_SubTask ''2026-01-01T00:00:00'' tid [] ''coder'' deps ''high'')\<lparr>status := st\<rparr>"

definition example_queue :: "(string \<times> SubTask) list \<Rightarrow> queue" where
  "example_queue tasks =
     \<lparr>q_version = ''1.0'', q_created_at = ''2026-01-01T00:00:00'', q_main_task_id = ''main_00000001'',
      q_tasks = tasks, q_dag = map (\<lambda>(tid, t). (tid, dependencies t)) tasks,
      q_execution_order = []\<rparr>"

lemma setitem_length: "k \<in> fst ` set d \<Longrightarrow> length (py_setitem d k v) = length d"
  by (induction d) (auto simp: py_setitem_def)








text \<open>
  The result files that \<^verbatim>\<open>aggregate_results\<close> can digest. A parsed result is
  \<open>summarisable\<close> when it is an object whose \<^verbatim>\<open>output\<close> entry, if it has one, is an
  object. The files are \<open>results_readable\<close> for a task map when the result file of every
  completed task that names one either does not exist or parses to such a value.
\<close>

fun summarisable :: "json \<Rightarrow> bool" where
  "summarisable (JDict d) =
     (case map_of d ''output'' of None \<Rightarrow> True | Some (JDict out) \<Rightarrow> True | Some _ \<Rightarrow> False)"
| "summarisable _ = False"

definition results_readable ::
  "(string \<Rightarrow> (py_error + json) option) \<Rightarrow> (string \<times> SubTask) list \<Rightarrow> bool" where
  "results_readable files tasks =
     (\<forall>(tid, t) \<in> set tasks. \<forall>p.
        status t = ''completed'' \<and> result_file t = Some p \<and> p \<noteq> [] \<longrightarrow>
        (case files p of None \<Rightarrow> True | Some (Inl e) \<Rightarrow> False | Some (Inr v) \<Rightarrow> summarisable v))"

lemma count_status_pos:
  "count_status s tasks > 0 \<longleftrightarrow> (\<exists>(tid, t) \<in> set tasks. status t = s)"
  by (auto simp: count_status_def filter_empty_conv)

lemma summarisable_get:
  "summarisable v \<longleftrightarrow>
     (\<exists>x. bind_err (json_get v ''output'' (JDict [])) (\<lambda>output.
             json_get output ''summary'' dflt) = Inr x)"
  by (cases v) (auto simp: json_get_def bind_err_def split: option.splits json.splits)

lemma summary_parts_Inr:
  "(\<exists>parts. summary_parts rs = Inr parts) \<longleftrightarrow> (\<forall>(k, v) \<in> set rs. summarisable v)"
proof (induction rs)
  case Nil
  then show ?case by simp
next
  case (Cons a rs)
  obtain tid v where a: "a = (tid, v)" by (cases a)
  show ?case
  proof (cases "summarisable v")
    case True
    then obtain x where
      x: "bind_err (json_get v ''output'' (JDict [])) (\<lambda>output.
             json_get output ''summary'' (JStr [0x5DF2, 0x5B8C, 0x6210])) = Inr x"
      unfolding summarisable_get[where dflt = "JStr [0x5DF2, 0x5B8C, 0x6210]"] by blast
    then obtain out where o: "json_get v ''output'' (JDict []) = Inr out"
      and s: "json_get out ''summary'' (JStr [0x5DF2, 0x5B8C, 0x6210]) = Inr x"
      by (cases "json_get v ''output'' (JDict [])") (simp_all add: bind_err_def)
    have "(\<exists>parts. summary_parts (a # rs) = Inr parts) \<longleftrightarrow> (\<exists>parts. summary_parts rs = Inr parts)"
      using o s a by (cases "summary_parts rs") (simp_all add: bind_err_def)
    with Cons.IH True a show ?thesis by simp
  next
    case False
    then have "\<not> (\<exists>x. bind_err (json_get v ''output'' (JDict [])) (\<lambda>output.
             json_get output ''summary'' (JStr [0x5DF2, 0x5B8C, 0x6210])) = Inr x)"
      unfolding summarisable_get[where dflt = "JStr [0x5DF2, 0x5B8C, 0x6210]"] .
    then have "\<not> (\<exists>parts. summary_parts (a # rs) = Inr parts)"
      using a
      by (cases "json_get v ''output'' (JDict [])";
          cases "json_get (projr (json_get v ''output'' (JDict []))) ''summary'' (JStr [0x5DF2, 0x5B8C, 0x6210])")
         (simp_all add: bind_err_def)
    with False a show ?thesis by simp
  qed
qed

lemma generate_summary_Inr:
  "(\<exists>s. generate_summary rs = Inr s) \<longleftrightarrow> (\<forall>(k, v) \<in> set rs. summarisable v)"
proof (cases "rs = []")
  case True
  then show ?thesis by (simp add: generate_summary_def)
next
  case False
  have "(\<exists>s. generate_summary rs = Inr s) \<longleftrightarrow> (\<exists>parts. summary_parts rs = Inr parts)"
    using False by (cases "summary_parts rs") (simp_all add: generate_summary_def bind_err_def)
  then show ?thesis by (simp only: summary_parts_Inr)
qed

lemma setitem_subset: "set (py_setitem d k v) \<subseteq> insert (k, v) (set d)"
  by (induction d) (auto simp: py_setitem_def)

text \<open>What the loop leaves in results: nothing from outside, and what no later task overwrites.\<close>

lemma collect_results_readable:
  "results_readable files tasks \<Longrightarrow>
   \<exists>rs. collect_results files tasks acc = Inr rs \<and>
        (\<forall>(k, v) \<in> set rs. (k, v) \<in> set acc \<or> summarisable v)"
proof (induction tasks arbitrary: acc)
  case Nil
  then show ?case by auto
next
  case (Cons a tasks)
  obtain tid t where a: "a = (tid, t)" by (cases a)
  from Cons.prems have rest: "results_readable files tasks"
    by (simp add: results_readable_def)
  note ih = Cons.IH[OF rest]
  show ?case
  proof (cases "status t = ''completed'' \<and> (\<exists>p. result_file t = Some p \<and> p \<noteq> [] \<and> files p \<noteq> None)")
    case False
    then have "collect_results files (a # tasks) acc = collect_results files tasks acc"
      using a by (auto split: option.splits)
    with ih[of acc] show ?thesis by simp
  next
    case True
    then obtain p c where st: "status t = ''completed''" and p: "result_file t = Some p" "p \<noteq> []"
      and c: "files p = Some c" by auto
    from Cons.prems a st p c obtain v where v: "c = Inr v" "summarisable v"
      by (cases c) (auto simp: results_readable_def)
    have e: "collect_results files (a # tasks) acc = collect_results files tasks (py_setitem acc tid v)"
      using a st p c v by (simp add: bind_err_def)
    from ih[of "py_setitem acc tid v"] obtain rs where
      rs: "collect_results files tasks (py_setitem acc tid v) = Inr rs"
      and el: "\<forall>(k, w) \<in> set rs. (k, w) \<in> set (py_setitem acc tid v) \<or> summarisable w"
      by blast
    have sub: "set (py_setitem acc tid v) \<subseteq> insert (tid, v) (set acc)"
      by (rule setitem_subset)
    have "\<forall>(k, w) \<in> set rs. (k, w) \<in> set acc \<or> summarisable w"
    proof (clarify)
      fix k w assume kw: "(k, w) \<in> set rs" and n: "\<not> summarisable w"
      from el kw n have "(k, w) \<in> set (py_setitem acc tid v)" by blast
      with sub have "(k, w) = (tid, v) \<or> (k, w) \<in> set acc" by blast
      with n v show "(k, w) \<in> set acc" by blast
    qed
    with e rs show ?thesis by simp
  qed
qed

lemma collect_results_no_error:
  "collect_results files tasks acc = Inr rs \<Longrightarrow> (tid, t) \<in> set tasks \<Longrightarrow>
   status t = ''completed'' \<Longrightarrow> result_file t = Some p \<Longrightarrow> p \<noteq> [] \<Longrightarrow>
   files p \<noteq> Some (Inl e)"
proof (induction tasks arbitrary: acc)
  case Nil
  then show ?case by simp
next
  case (Cons a tasks)
  obtain tid' t' where a: "a = (tid', t')" by (cases a)
  show ?case
  proof (cases "status t' = ''completed'' \<and> (\<exists>p. result_file t' = Some p \<and> p \<noteq> [] \<and> files p \<noteq> None)")
    case False
    then have e: "collect_results files (a # tasks) acc = collect_results files tasks acc"
      using a by (auto split: option.splits)
    show ?thesis
    proof (cases "(tid, t) = a")
      case True
      with False a Cons.prems show ?thesis by auto
    next
      case neq: False
      with Cons.prems have "(tid, t) \<in> set tasks" by auto
      from Cons.IH[OF _ this Cons.prems(3-5), of acc] e Cons.prems(1) show ?thesis by simp
    qed
  next
    case True
    then obtain p' c where st: "status t' = ''completed''" and p': "result_file t' = Some p'" "p' \<noteq> []"
      and c: "files p' = Some c" by auto
    from Cons.prems(1) a st p' c obtain v where v: "c = Inr v"
      by (cases c) (simp_all add: bind_err_def)
    have e: "collect_results files (a # tasks) acc = collect_results files tasks (py_setitem acc tid' v)"
      using a st p' c v by (simp add: bind_err_def)
    show ?thesis
    proof (cases "(tid, t) = a")
      case True
      with a p' c v Cons.prems show ?thesis by auto
    next
      case neq: False
      with Cons.prems have "(tid, t) \<in> set tasks" by auto
      from Cons.IH[OF _ this Cons.prems(3-5), of "py_setitem acc tid' v"] e Cons.prems(1)
      show ?thesis by simp
    qed
  qed
qed

lemma collect_results_other:
  "collect_results files tasks acc = Inr rs \<Longrightarrow> k \<notin> fst ` set tasks \<Longrightarrow>
   map_of rs k = map_of acc k"
proof (induction tasks arbitrary: acc)
  case Nil
  then show ?case by simp
next
  case (Cons a tasks)
  obtain tid' t' where a: "a = (tid', t')" by (cases a)
  from Cons.prems a have k: "k \<noteq> tid'" "k \<notin> fst ` set tasks" by auto
  show ?case
  proof (cases "status t' = ''completed'' \<and> (\<exists>p. result_file t' = Some p \<and> p \<noteq> [] \<and> files p \<noteq> None)")
    case False
    then have e: "collect_results files (a # tasks) acc = collect_results files tasks acc"
      using a by (auto split: option.splits)
    from Cons.IH[OF _ k(2), of acc] e Cons.prems(1) show ?thesis by simp
  next
    case True
    then obtain p' c where st: "status t' = ''completed''" and p': "result_file t' = Some p'" "p' \<noteq> []"
      and c: "files p' = Some c" by auto
    from Cons.prems(1) a st p' c obtain v where v: "c = Inr v"
      by (cases c) (simp_all add: bind_err_def)
    have e: "collect_results files (a # tasks) acc = collect_results files tasks (py_setitem acc tid' v)"
      using a st p' c v by (simp add: bind_err_def)
    from Cons.IH[OF _ k(2), of "py_setitem acc tid' v"] e Cons.prems(1)
    have "map_of rs k = map_of (py_setitem acc tid' v) k" by simp
    with k(1) show ?thesis by (simp add: py_setitem_def update_conv')
  qed
qed

lemma collect_results_holds:
  "collect_results files tasks acc = Inr rs \<Longrightarrow> distinct (map fst tasks) \<Longrightarrow>
   (tid, t) \<in> set tasks \<Longrightarrow>
   status t = ''completed'' \<Longrightarrow> result_file t = Some p \<Longrightarrow> p \<noteq> [] \<Longrightarrow>
   files p = Some (Inr v) \<Longrightarrow> map_of rs tid = Some v"
proof (induction tasks arbitrary: acc)
  case Nil
  then show ?case by simp
next
  case (Cons a tasks)
  obtain tid' t' where a: "a = (tid', t')" by (cases a)
  from Cons.prems(2) a have d: "distinct (map fst tasks)" "tid' \<notin> fst ` set tasks" by auto
  show ?case
  proof (cases "(tid, t) = a")
    case True
    with a have eq: "tid' = tid" "t' = t" by auto
    have e: "collect_results files (a # tasks) acc = collect_results files tasks (py_setitem acc tid v)"
      using a eq Cons.prems(4-7) by (simp add: bind_err_def)
    from collect_results_other[of files tasks "py_setitem acc tid v" rs tid] e Cons.prems(1) d eq
    have "map_of rs tid = map_of (py_setitem acc tid v) tid" by simp
    then show ?thesis by (simp add: py_setitem_def update_conv')
  next
    case neq: False
    with Cons.prems have m: "(tid, t) \<in> set tasks" by auto
    show ?thesis
    proof (cases "status t' = ''completed'' \<and> (\<exists>p. result_file t' = Some p \<and> p \<noteq> [] \<and> files p \<noteq> None)")
      case False
      then have e: "collect_results files (a # tasks) acc = collect_results files tasks acc"
        using a by (auto split: option.splits)
      from Cons.IH[OF _ d(1) m Cons.prems(4-7), of acc] e Cons.prems(1) show ?thesis by simp
    next
      case True
      then obtain p' c where st: "status t' = ''completed''" and p': "result_file t' = Some p'" "p' \<noteq> []"
        and c: "files p' = Some c" by auto
      from Cons.prems(1) a st p' c obtain w where w: "c = Inr w"
        by (cases c) (simp_all add: bind_err_def)
      have e: "collect_results files (a # tasks) acc = collect_results files tasks (py_setitem acc tid' w)"
        using a st p' c w by (simp add: bind_err_def)
      from Cons.IH[OF _ d(1) m Cons.prems(4-7), of "py_setitem acc tid' w"] e Cons.prems(1)
      show ?thesis by simp
    qed
  qed
qed


lemma aggregate_results_returns:
  "is_dict (q_tasks q) \<Longrightarrow>
   (\<exists>r. aggregate_results files (Some q) = Inr r) \<longleftrightarrow> results_readable files (q_tasks q)"
proof
  assume rd: "results_readable files (q_tasks q)"
  from collect_results_readable[OF rd, of "[]"] obtain rs where
    rs: "collect_results files (q_tasks q) [] = Inr rs" and
    el: "\<forall>(k, v) \<in> set rs. summarisable v" by auto
  from el obtain s where s: "generate_summary rs = Inr s"
    using generate_summary_Inr[of rs] by blast
  show "\<exists>r. aggregate_results files (Some q) = Inr r"
    by (simp add: aggregate_results_def read_queue_def get_progress_Some bind_err_def Let_def rs s)
next
  assume d: "is_dict (q_tasks q)"
  assume "\<exists>r. aggregate_results files (Some q) = Inr r"
  then obtain r where r: "aggregate_results files (Some q) = Inr r" ..
  then obtain rs where rs: "collect_results files (q_tasks q) [] = Inr rs"
    by (cases "collect_results files (q_tasks q) []")
       (simp_all add: aggregate_results_def read_queue_def bind_err_def)
  from r rs obtain s where s: "generate_summary rs = Inr s"
    by (cases "generate_summary rs")
       (simp_all add: aggregate_results_def read_queue_def get_progress_Some bind_err_def Let_def)
  then have el: "\<forall>(k, v) \<in> set rs. summarisable v"
    using generate_summary_Inr[of rs] by blast
  show "results_readable files (q_tasks q)"
    unfolding results_readable_def
  proof (clarify)
    fix tid t p
    assume m: "(tid, t) \<in> set (q_tasks q)" and st: "status t = ''completed''"
      and p: "result_file t = Some p" "p \<noteq> []"
    show "case files p of None \<Rightarrow> True | Some (Inl e) \<Rightarrow> False | Some (Inr v) \<Rightarrow> summarisable v"
    proof (cases "files p")
      case None
      then show ?thesis by simp
    next
      case (Some c)
      show ?thesis
      proof (cases c)
        case (Inl e)
        with Some collect_results_no_error[OF rs m st p, of e] show ?thesis by simp
      next
        case (Inr v)
        from d have "distinct (map fst (q_tasks q))" by (simp add: is_dict_def)
        from collect_results_holds[OF rs this m st p] Some Inr
        have "map_of rs tid = Some v" by simp
        then have "(tid, v) \<in> set rs" by (rule map_of_SomeD)
        with el have "summarisable v" by blast
        with Some Inr show ?thesis by simp
      qed
    qed
  qed
qed

lemma aggregate_results_status:
  "aggregate_results files (Some q) = Inr r \<Longrightarrow>
   agg_status r =
     (if \<exists>(tid, t) \<in> set (q_tasks q). status t = ''failed''
      then (if \<exists>(tid, t) \<in> set (q_tasks q). status t = ''completed'' then ''partial'' else ''failed'')
      else ''success'')"
proof -
  assume r: "aggregate_results files (Some q) = Inr r"
  then obtain rs where rs: "collect_results files (q_tasks q) [] = Inr rs"
    by (cases "collect_results files (q_tasks q) []")
       (simp_all add: aggregate_results_def read_queue_def bind_err_def)
  from r rs obtain s where s: "generate_summary rs = Inr s"
    by (cases "generate_summary rs")
       (simp_all add: aggregate_results_def read_queue_def get_progress_Some bind_err_def Let_def)
  from r rs s have
    "agg_status r =
       (if count_status ''failed'' (q_tasks q) > 0
        then (if count_status ''completed'' (q_tasks q) > 0 then ''partial'' else ''failed'')
        else ''success'')"
    by (auto simp: aggregate_results_def read_queue_def get_progress_Some bind_err_def Let_def)
  then show ?thesis by (simp only: count_status_pos)
qed

text \<open>
  Claim C8, as amended. Whenever \<^verbatim>\<open>aggregate_results\<close> returns for a persisted queue,
  its status is \<^verbatim>\<open>success\<close> when no task is failed, \<^verbatim>\<open>partial\<close> when at least one
  task is failed and at least one is completed, and \<^verbatim>\<open>failed\<close> when at least one is
  failed and none is completed. It returns exactly when the result files are readable
  for the task map; otherwise it raises and derives no status.
\<close>

theorem aggregate_status:
  "(aggregate_results files (Some q) = Inr r \<longrightarrow>
      ((\<forall>(tid, t) \<in> set (q_tasks q). status t \<noteq> ''failed'') \<longrightarrow> agg_status r = ''success'') \<and>
      ((\<exists>(tid, t) \<in> set (q_tasks q). status t = ''failed'') \<and>
       (\<exists>(tid, t) \<in> set (q_tasks q). status t = ''completed'') \<longrightarrow> agg_status r = ''partial'') \<and>
      ((\<exists>(tid, t) \<in> set (q_tasks q). status t = ''failed'') \<and>
       (\<forall>(tid, t) \<in> set (q_tasks q). status t \<noteq> ''completed'') \<longrightarrow> agg_status r = ''failed'')) \<and>
   (is_dict (q_tasks q) \<longrightarrow>
      ((\<exists>r. aggregate_results files (Some q) = Inr r) \<longleftrightarrow> results_readable files (q_tasks q)))"
proof (intro conjI impI)
  assume r: "aggregate_results files (Some q) = Inr r"
  note s = aggregate_results_status[OF r]
  show "agg_status r = ''success''" if "\<forall>(tid, t) \<in> set (q_tasks q). status t \<noteq> ''failed''"
  proof -
    from that have "\<not> (\<exists>(tid, t) \<in> set (q_tasks q). status t = ''failed'')" by blast
    with s show ?thesis by (simp only: if_False)
  qed
  show "agg_status r = ''partial''"
    if "(\<exists>(tid, t) \<in> set (q_tasks q). status t = ''failed'') \<and>
        (\<exists>(tid, t) \<in> set (q_tasks q). status t = ''completed'')"
    using s that by (simp only: if_True)
  show "agg_status r = ''failed''"
    if "(\<exists>(tid, t) \<in> set (q_tasks q). status t = ''failed'') \<and>
        (\<forall>(tid, t) \<in> set (q_tasks q). status t \<noteq> ''completed'')"
  proof -
    from that have "\<not> (\<exists>(tid, t) \<in> set (q_tasks q). status t = ''completed'')" by blast
    with s that show ?thesis by (simp only: if_True if_False)
  qed
next
  assume "is_dict (q_tasks q)"
  then show "(\<exists>r. aggregate_results files (Some q) = Inr r) \<longleftrightarrow> results_readable files (q_tasks q)"
    by (rule aggregate_results_returns)
qed

text \<open>
  A parsed result file, and a completed task that names its result file.
\<close>

definition result_B :: json where
  "result_B =
     JDict [(''task_id'', JStr [0x42]), (''status'', JStr [0x63, 0x6F, 0x6D, 0x70, 0x6C, 0x65, 0x74, 0x65, 0x64]),
            (''output'', JDict [(''summary'', JStr [0x6F, 0x6B])])]"

definition completed_with_file :: "string \<Rightarrow> string \<Rightarrow> SubTask" where
  "completed_with_file tid path = (example_task tid ''completed'' [])\<lparr>result_file := Some path\<rparr>"

text \<open>
  The theorem at a queue with a failed task, a completed task whose result file parses,
  and a pending task.
\<close>

theorem aggregate_status_witness:
  "\<exists>r. aggregate_results (\<lambda>p. if p = ''results/B.json'' then Some (Inr result_B) else None)
          (Some (example_queue [(''A'', example_task ''A'' ''failed'' []),
                                (''B'', completed_with_file ''B'' ''results/B.json''),
                                (''D'', example_task ''D'' ''pending'' [''A''])])) = Inr r \<and>
       agg_status r = ''partial''"
proof -
  let ?files = "\<lambda>p. if p = ''results/B.json'' then Some (Inr result_B) else None"
  let ?q = "example_queue [(''A'', example_task ''A'' ''failed'' []),
                                (''B'', completed_with_file ''B'' ''results/B.json''),
                                (''D'', example_task ''D'' ''pending'' [''A''])]"
  have d: "is_dict (q_tasks ?q)" by (simp add: example_queue_def is_dict_def)
  have rd: "results_readable ?files (q_tasks ?q)"
    by (simp add: results_readable_def example_queue_def example_task_def new_SubTask_def
          completed_with_file_def result_B_def)
  have fc: "(\<exists>(tid, t) \<in> set (q_tasks ?q). status t = ''failed'') \<and>
            (\<exists>(tid, t) \<in> set (q_tasks ?q). status t = ''completed'')"
    by (simp add: example_queue_def example_task_def new_SubTask_def completed_with_file_def)
  from aggregate_status[of ?files ?q, THEN conjunct2, THEN mp, OF d] rd
  obtain r where r: "aggregate_results ?files (Some ?q) = Inr r" by blast
  from aggregate_status[of ?files ?q r, THEN conjunct1, THEN mp, OF r, THEN conjunct2, THEN conjunct1,
      THEN mp, OF fc]
  have "agg_status r = ''partial''" .
  with r show ?thesis by (intro exI[of _ r]) simp
qed

text \<open>
  Claim C8 as stated fails when the result file of a completed task holds no JSON text:
  no task is failed, and \<^verbatim>\<open>aggregate_results\<close> returns no status but raises
  \<^verbatim>\<open>JSONDecodeError\<close>.
\<close>

theorem aggregate_status_counterexample:
  "aggregate_results (\<lambda>p. if p = ''results/B.json'' then Some (Inl JSONDecodeError) else None)
     (Some (example_queue [(''B'', completed_with_file ''B'' ''results/B.json'')])) =
   Inl JSONDecodeError"
  by (simp add: aggregate_results_def read_queue_def example_queue_def completed_with_file_def
        example_task_def new_SubTask_def bind_err_def)

lemma dump_items_map: "dump_items (map (\<lambda>(k, v). (k, Json v)) items) = Inr items"
  by (induction items) (auto simp: bind_err_def)














section \<open>Claims about dangling dependencies\<close>

text \<open>
  \<open>prune_dangling\<close> removes from every dependency list the ids that are no key of the
  graph.
\<close>

definition prune_dangling :: "(string \<times> string list) list \<Rightarrow> (string \<times> string list) list" where
  "prune_dangling dag = map (\<lambda>(n, deps). (n, filter (\<lambda>d. d \<in> fst ` set dag) deps)) dag"

lemma ready_in_cong:
  "(\<And>n. n \<in> set rem \<Longrightarrow> set (deps n) \<inter> set rem = set (deps' n) \<inter> set rem) \<Longrightarrow>
   ready_in deps rem = ready_in deps' rem"
  unfolding ready_in_def by (rule filter_cong) auto

lemma kahn_levels_cong:
  "(\<And>n. n \<in> set rem \<Longrightarrow> set (deps n) \<inter> set rem = set (deps' n) \<inter> set rem) \<Longrightarrow>
   kahn_levels deps rem = kahn_levels deps' rem"
proof (induction deps rem rule: kahn_levels.induct)
  case (1 deps rem)
  have r: "ready_in deps rem = ready_in deps' rem"
    by (rule ready_in_cong) (rule 1(2))
  show ?case
  proof (cases "ready_in deps rem = []")
    case True
    with r show ?thesis
      by (subst kahn_levels.simps, subst (2) kahn_levels.simps) simp
  next
    case False
    let ?rem' = "filter (\<lambda>n. n \<notin> set (ready_in deps rem)) rem"
    have "kahn_levels deps ?rem' = kahn_levels deps' ?rem'"
    proof (rule 1(1)[OF False])
      fix n assume "n \<in> set ?rem'"
      then have "n \<in> set rem" by simp
      from 1(2)[OF this] show "set (deps n) \<inter> set ?rem' = set (deps' n) \<inter> set ?rem'"
        by auto
    qed
    with False r show ?thesis
      by (subst kahn_levels.simps, subst (2) kahn_levels.simps) simp
  qed
qed

lemma prune_keys: "map fst (prune_dangling dag) = map fst dag"
  by (simp add: prune_dangling_def case_prod_unfold comp_def)

lemma prune_deps_of:
  "deps_of (prune_dangling dag) n = filter (\<lambda>d. d \<in> fst ` set dag) (deps_of dag n)"
proof -
  have m: "map_of (map (\<lambda>(n, deps). (n, f deps)) xs) n = map_option f (map_of xs n)"
    for f :: "string list \<Rightarrow> string list" and xs
    by (induction xs) auto
  show ?thesis
    unfolding deps_of_def prune_dangling_def m
    by (cases "map_of dag n") simp_all
qed

lemma get_execution_order_prune:
  assumes "is_dict dag"
  shows "get_execution_order (prune_dangling dag) = get_execution_order dag"
proof -
  from assms have "is_dict (prune_dangling dag)" by (simp add: is_dict_def prune_keys)
  then have "get_execution_order (prune_dangling dag) =
      Inr (kahn_levels (deps_of (prune_dangling dag)) (map fst dag))"
    using get_execution_order_kahn[of "prune_dangling dag"] by (simp add: prune_keys)
  moreover have "kahn_levels (deps_of (prune_dangling dag)) (map fst dag) =
      kahn_levels (deps_of dag) (map fst dag)"
    by (rule kahn_levels_cong) (auto simp: prune_deps_of)
  ultimately show ?thesis using get_execution_order_kahn[OF assms] by simp
qed

lemma get_ready_tasks_set:
  "set (get_ready_tasks (Some q)) =
     {t. \<exists>tid. (tid, t) \<in> set (q_tasks q) \<and> status t = ''pending'' \<and>
           (\<forall>d \<in> set (dependencies t). \<exists>t'. (d, t') \<in> set (q_tasks q) \<and> status t' = ''completed'')}"
  by (auto simp: get_ready_tasks_def read_queue_def Let_def image_iff)

text \<open>
  Claim C6, as amended. \<^verbatim>\<open>get_execution_order\<close> treats a dependency id that is no key
  of the graph as satisfied: it never raises, it returns what it returns for the graph
  with the dangling ids removed, and it places every task in a level when the restricted
  graph is acyclic. \<^verbatim>\<open>get_ready_tasks\<close> does not: it returns exactly the pending tasks
  each of whose dependency ids, dangling or not, is the id of a completed task.
  \<^verbatim>\<open>build_execution_order\<close> never raises either, and every task it schedules has all its
  dependency ids in the list.
\<close>

theorem dangling_dependencies:
  "(is_dict dag \<longrightarrow>
      (\<exists>levels. get_execution_order dag = Inr levels \<and>
         get_execution_order (prune_dangling dag) = Inr levels \<and>
         (acyclic (dep_graph dag) \<longrightarrow> set (concat levels) = fst ` set dag))) \<and>
   (t \<in> set (get_ready_tasks (Some q)) \<longleftrightarrow>
      (\<exists>tid. (tid, t) \<in> set (q_tasks q) \<and> status t = ''pending'' \<and>
         (\<forall>d \<in> set (dependencies t).
            \<exists>t'. (d, t') \<in> set (q_tasks q) \<and> status t' = ''completed''))) \<and>
   (\<exists>levels. build_execution_order tasks = Inr levels \<and>
      (\<forall>u \<in> set (concat levels). set (sw_dependencies u) \<subseteq> sw_task_id ` set tasks))"
proof (intro conjI impI)
  assume dict: "is_dict dag"
  let ?L = "kahn_levels (deps_of dag) (map fst dag)"
  have "get_execution_order dag = Inr ?L" by (rule geo_levels_facts(1)[OF dict])
  moreover from this have "get_execution_order (prune_dangling dag) = Inr ?L"
    by (simp add: get_execution_order_prune[OF dict])
  moreover have "acyclic (dep_graph dag) \<longrightarrow> set (concat ?L) = fst ` set dag"
    using geo_levels_facts(4)[OF dict] by blast
  ultimately show "\<exists>levels. get_execution_order dag = Inr levels \<and>
         get_execution_order (prune_dangling dag) = Inr levels \<and>
         (acyclic (dep_graph dag) \<longrightarrow> set (concat levels) = fst ` set dag)" by blast
next
  show "t \<in> set (get_ready_tasks (Some q)) \<longleftrightarrow>
      (\<exists>tid. (tid, t) \<in> set (q_tasks q) \<and> status t = ''pending'' \<and>
         (\<forall>d \<in> set (dependencies t).
            \<exists>t'. (d, t') \<in> set (q_tasks q) \<and> status t' = ''completed''))"
    unfolding get_ready_tasks_set by simp
next
  obtain levels where b: "build_execution_order tasks = Inr levels"
    using beo_id_levels by blast
  have "set (sw_dependencies u) \<subseteq> sw_task_id ` set tasks" if u: "u \<in> set (concat levels)" for u
  proof
    fix d assume d: "d \<in> set (sw_dependencies u)"
    from u obtain xs where "xs \<in> set levels" "u \<in> set xs" by auto
    then obtain j where j: "j < length levels" "u \<in> set (levels ! j)"
      by (metis in_set_conv_nth)
    from beo_deps_earlier[OF b j d] obtain i where i: "i < j" "d \<in> sw_task_id ` set (levels ! i)"
      by blast
    from i j have "levels ! i \<in> set levels" by simp
    with i(2) have "d \<in> sw_task_id ` set (concat levels)" by auto
    moreover have "set (map sw_task_id (concat levels)) \<subseteq> sw_task_id ` set tasks"
      using done_subset[of "deps_wr tasks" "[]" "ids_of tasks"]
      unfolding beo_concat_ids[OF b] id_levels_def by (simp add: set_ids_of)
    ultimately show "d \<in> sw_task_id ` set tasks" by auto
  qed
  with b show "\<exists>levels. build_execution_order tasks = Inr levels \<and>
      (\<forall>u \<in> set (concat levels). set (sw_dependencies u) \<subseteq> sw_task_id ` set tasks)" by blast
qed

text \<open>
  The theorem at the diamond with the dangling id \<open>X\<close>, at a queue in which \<open>B\<close> waits
  for the completed \<open>A\<close> and \<open>C\<close> for \<open>A\<close> and the dangling \<open>X\<close>, and at the fixed
  template.
\<close>

theorem dangling_dependencies_witness:
  "(\<exists>levels. get_execution_order
        [(''A'', []), (''B'', [''A'']), (''C'', [''A'', ''X'']), (''D'', [''B'', ''C''])] = Inr levels \<and>
      get_execution_order (prune_dangling
        [(''A'', []), (''B'', [''A'']), (''C'', [''A'', ''X'']), (''D'', [''B'', ''C''])]) = Inr levels \<and>
      set (concat levels) = {''A'', ''B'', ''C'', ''D''}) \<and>
   example_task ''B'' ''pending'' [''A''] \<in> set (get_ready_tasks (Some (example_queue
      [(''A'', example_task ''A'' ''completed'' []), (''B'', example_task ''B'' ''pending'' [''A'']),
       (''C'', example_task ''C'' ''pending'' [''A'', ''X''])]))) \<and>
   example_task ''C'' ''pending'' [''A'', ''X''] \<notin> set (get_ready_tasks (Some (example_queue
      [(''A'', example_task ''A'' ''completed'' []), (''B'', example_task ''B'' ''pending'' [''A'']),
       (''C'', example_task ''C'' ''pending'' [''A'', ''X''])]))) \<and>
   (\<exists>levels. build_execution_order (decompose_task_wr []) = Inr levels \<and>
      (\<forall>u \<in> set (concat levels).
         set (sw_dependencies u) \<subseteq> sw_task_id ` set (decompose_task_wr [])))"
proof -
  let ?dag = "[(''A'', []), (''B'', [''A'']), (''C'', [''A'', ''X'']), (''D'', [''B'', ''C''])]"
  let ?q = "example_queue
      [(''A'', example_task ''A'' ''completed'' []), (''B'', example_task ''B'' ''pending'' [''A'']),
       (''C'', example_task ''C'' ''pending'' [''A'', ''X''])]"
  let ?B = "example_task ''B'' ''pending'' [''A'']"
  let ?C = "example_task ''C'' ''pending'' [''A'', ''X'']"
  have d: "is_dict ?dag" by (simp add: is_dict_def)
  have k: "fst ` set ?dag = {''A'', ''B'', ''C'', ''D''}" by simp
  note tB = dangling_dependencies[where dag = ?dag and t = ?B and q = ?q
      and tasks = "decompose_task_wr []"]
  note tC = dangling_dependencies[where dag = ?dag and t = ?C and q = ?q
      and tasks = "decompose_task_wr []"]
  from tB[THEN conjunct1, THEN mp, OF d] obtain L where
    L: "get_execution_order ?dag = Inr L" "get_execution_order (prune_dangling ?dag) = Inr L"
       "acyclic (dep_graph ?dag) \<longrightarrow> set (concat L) = fst ` set ?dag"
    by (elim exE conjE)
  from L(3) example_dag_acyclic have L3: "set (concat L) = {''A'', ''B'', ''C'', ''D''}"
    by (simp only: k)
  have 1: "\<exists>levels. get_execution_order ?dag = Inr levels \<and>
      get_execution_order (prune_dangling ?dag) = Inr levels \<and>
      set (concat levels) = {''A'', ''B'', ''C'', ''D''}"
    using L(1,2) L3 by (intro exI[of _ L] conjI)
  have 2: "?B \<in> set (get_ready_tasks (Some ?q))"
    unfolding tB[THEN conjunct2, THEN conjunct1]
    by (rule exI[of _ "''B''"]) (simp add: example_queue_def example_task_def new_SubTask_def)
  have 3: "?C \<notin> set (get_ready_tasks (Some ?q))"
    unfolding tC[THEN conjunct2, THEN conjunct1]
    by (simp add: example_queue_def example_task_def new_SubTask_def)
  from 1 2 3 tB[THEN conjunct2, THEN conjunct2] show ?thesis by (intro conjI)
qed

text \<open>
  Claim C6 as stated fails for \<^verbatim>\<open>get_ready_tasks\<close>: the pending task \<open>A\<close> has no
  dependency in the queue and one dangling dependency \<open>X\<close>, and it is not reported ready,
  while \<^verbatim>\<open>get_execution_order\<close> puts it into the first level.
\<close>

theorem dangling_dependencies_counterexample:
  "get_ready_tasks (Some (example_queue [(''A'', example_task ''A'' ''pending'' [''X''])])) = [] \<and>
   get_execution_order [(''A'', [''X''])] = Inr [[''A'']]"
  by (simp add: get_ready_tasks_def read_queue_def example_queue_def example_task_def
        new_SubTask_def get_execution_order_def geo_loop.simps py_getitem_def py_setitem_def)

section \<open>Claims about the order of execution\<close>

lemma level_run_start:
  "level_run w exec queue running tr \<Longrightarrow> Start x \<in> set tr \<Longrightarrow> x \<in> sw_task_id ` set queue"
  by (induction rule: level_run.induct) auto

lemma level_run_finish:
  "level_run w exec queue running tr \<Longrightarrow> t \<in> set queue \<union> set running \<Longrightarrow>
   Finish (sw_task_id t) (succeeds exec t) \<in> set tr"
proof (induction rule: level_run.induct)
  case level_done
  then show ?case by simp
next
  case (level_start running queue t0 tr)
  then show ?case by auto
next
  case (level_finish t0 running queue tr)
  show ?case
  proof (cases "t = t0")
    case True
    then show ?thesis by simp
  next
    case False
    with level_finish.prems have "t \<in> set queue \<union> set (remove1 t0 running)" by auto
    with level_finish.IH show ?thesis by simp
  qed
qed

lemma engine_run_barrier:
  "engine_run w exec levels tr \<Longrightarrow> distinct (map sw_task_id (concat levels)) \<Longrightarrow>
   k' < k \<Longrightarrow> k < length levels \<Longrightarrow> t \<in> set (levels ! k) \<Longrightarrow> u \<in> set (levels ! k') \<Longrightarrow>
   j < length tr \<Longrightarrow> tr ! j = Start (sw_task_id t) \<Longrightarrow>
   \<exists>i<j. tr ! i = Finish (sw_task_id u) (succeeds exec u)"
proof (induction arbitrary: k k' j rule: engine_run.induct)
  case engine_done
  then show ?case by simp
next
  case (engine_level lvl tr levels tr')
  from engine_level.prems(2) obtain k0 where k: "k = Suc k0" by (cases k) auto
  with engine_level.prems have t: "t \<in> set (levels ! k0)" and k0: "k0 < length levels" by auto
  then have tc: "sw_task_id t \<in> sw_task_id ` set (concat levels)"
    by (auto intro!: bexI[of _ "levels ! k0"] imageI)
  have nj: "\<not> j < length tr"
  proof
    assume "j < length tr"
    with engine_level.prems(7) have "Start (sw_task_id t) \<in> set tr"
      by (metis nth_append nth_mem)
    from level_run_start[OF engine_level.hyps(1) this]
    have "sw_task_id t \<in> sw_task_id ` set lvl" .
    with tc engine_level.prems(1) show False by auto
  qed
  then have j': "j - length tr < length tr'" "tr' ! (j - length tr) = Start (sw_task_id t)"
    using engine_level.prems(6,7) by (auto simp: nth_append)
  show ?case
  proof (cases k')
    case 0
    with engine_level.prems(5) have "u \<in> set lvl \<union> set []" by simp
    from level_run_finish[OF engine_level.hyps(1) this]
    obtain i where "i < length tr" "tr ! i = Finish (sw_task_id u) (succeeds exec u)"
      by (auto simp: in_set_conv_nth)
    with nj show ?thesis by (intro exI[of _ i]) (simp add: nth_append)
  next
    case (Suc k0')
    with engine_level.prems k have u: "u \<in> set (levels ! k0')" and lt: "k0' < k0" by auto
    from engine_level.prems(1) have d: "distinct (map sw_task_id (concat levels))" by simp
    from engine_level.IH[OF d lt k0 t u j']
    obtain i where "i < j - length tr" "tr' ! i = Finish (sw_task_id u) (succeeds exec u)" by blast
    then show ?thesis
      by (intro exI[of _ "length tr + i"]) (auto simp: nth_append)
  qed
qed

lemma engine_run_start:
  "engine_run w exec levels tr \<Longrightarrow> Start x \<in> set tr \<Longrightarrow> x \<in> sw_task_id ` set (concat levels)"
proof (induction rule: engine_run.induct)
  case engine_done
  then show ?case by simp
next
  case (engine_level lvl tr levels tr')
  then show ?case using level_run_start[of w exec lvl "[]" tr x] by auto
qed

text \<open>
  With at least one worker the engine has a trace for every level list, and the
  executor of the source never raises.
\<close>

lemma level_run_exists: "0 < w \<Longrightarrow> \<exists>tr. level_run w exec queue [] tr"
proof (induction queue)
  case Nil
  then show ?case using level_done by blast
next
  case (Cons t queue)
  then obtain tr where tr: "level_run w exec queue [] tr" by blast
  then have "level_run w exec queue (remove1 t [t]) tr" by simp
  then have "level_run w exec queue [t] (Finish (sw_task_id t) (succeeds exec t) # tr)"
    by (rule level_finish[rotated]) simp
  then have "level_run w exec queue ([] @ [t]) (Finish (sw_task_id t) (succeeds exec t) # tr)"
    by simp
  with Cons.prems have "level_run w exec (t # queue) []
      (Start (sw_task_id t) # Finish (sw_task_id t) (succeeds exec t) # tr)"
    by (intro level_start) simp_all
  then show ?case by blast
qed

lemma engine_run_exists: "0 < w \<Longrightarrow> \<exists>tr. engine_run w exec levels tr"
proof (induction levels)
  case Nil
  then show ?case using engine_done by blast
next
  case (Cons lvl levels)
  then obtain tr' where "engine_run w exec levels tr'" by blast
  moreover from Cons.prems obtain tr where "level_run w exec lvl [] tr"
    using level_run_exists by blast
  ultimately show ?case using engine_level by blast
qed

lemma execute_single_task_succeeds: "succeeds execute_single_task t"
  by (simp add: succeeds_def execute_single_task_def)

text \<open>
  Claim C7. In every trace of \<^verbatim>\<open>execute_parallel\<close> on the levels that
  \<^verbatim>\<open>build_execution_order\<close> computed, a task of a level is started only after every
  task of every earlier level has ended, with a result or with an exception; hence after
  each of its transitive dependencies has ended. Only tasks of the levels are started.
\<close>

theorem levels_run_in_order:
  "build_execution_order tasks = Inr levels \<and> engine_run w exec levels tr \<longrightarrow>
     (\<forall>k k' t u j. k' < k \<and> k < length levels \<and> t \<in> set (levels ! k) \<and> u \<in> set (levels ! k') \<and>
         j < length tr \<and> tr ! j = Start (sw_task_id t) \<longrightarrow>
           (\<exists>i<j. tr ! i = Finish (sw_task_id u) (succeeds exec u))) \<and>
     (\<forall>k t d j. k < length levels \<and> t \<in> set (levels ! k) \<and>
         (sw_task_id t, d) \<in> (dep_rel_wr tasks)\<^sup>+ \<and>
         j < length tr \<and> tr ! j = Start (sw_task_id t) \<longrightarrow>
           (\<exists>i<j. \<exists>b. tr ! i = Finish d b)) \<and>
     (\<forall>x. Start x \<in> set tr \<longrightarrow> x \<in> sw_task_id ` set (concat levels))"
proof (intro impI)
  assume a: "build_execution_order tasks = Inr levels \<and> engine_run w exec levels tr"
  then have b: "build_execution_order tasks = Inr levels" and e: "engine_run w exec levels tr"
    by simp_all
  note d = beo_distinct[OF b]
  have 1: "\<exists>i<j. tr ! i = Finish (sw_task_id u) (succeeds exec u)"
    if "k' < k \<and> k < length levels \<and> t \<in> set (levels ! k) \<and> u \<in> set (levels ! k') \<and>
         j < length tr \<and> tr ! j = Start (sw_task_id t)" for k k' t u j
    using engine_run_barrier[OF e d, of k' k t u j] that by blast
  have 2: "\<exists>i<j. \<exists>b. tr ! i = Finish d b"
    if h: "k < length levels \<and> t \<in> set (levels ! k) \<and>
         (sw_task_id t, d) \<in> (dep_rel_wr tasks)\<^sup>+ \<and>
         j < length tr \<and> tr ! j = Start (sw_task_id t)" for k t d j
  proof -
    from h have "sw_task_id t \<in> sw_task_id ` set (levels ! k)" by simp
    with beo_trancl_earlier[OF b, of "sw_task_id t" d k] h
    obtain k' where k': "k' < k" "d \<in> sw_task_id ` set (levels ! k')" by blast
    then obtain u where u: "u \<in> set (levels ! k')" "d = sw_task_id u" by auto
    from engine_run_barrier[OF e d k'(1), of t u j] h u(1)
    obtain i where "i < j" "tr ! i = Finish (sw_task_id u) (succeeds exec u)" by blast
    with u(2) show ?thesis by blast
  qed
  have 3: "x \<in> sw_task_id ` set (concat levels)" if "Start x \<in> set tr" for x
    using e that by (rule engine_run_start)
  from 1 2 3 show "(\<forall>k k' t u j. k' < k \<and> k < length levels \<and> t \<in> set (levels ! k) \<and> u \<in> set (levels ! k') \<and>
         j < length tr \<and> tr ! j = Start (sw_task_id t) \<longrightarrow>
           (\<exists>i<j. tr ! i = Finish (sw_task_id u) (succeeds exec u))) \<and>
     (\<forall>k t d j. k < length levels \<and> t \<in> set (levels ! k) \<and>
         (sw_task_id t, d) \<in> (dep_rel_wr tasks)\<^sup>+ \<and>
         j < length tr \<and> tr ! j = Start (sw_task_id t) \<longrightarrow>
           (\<exists>i<j. \<exists>b. tr ! i = Finish d b)) \<and>
     (\<forall>x. Start x \<in> set tr \<longrightarrow> x \<in> sw_task_id ` set (concat levels))"
    by (intro conjI allI impI)
qed

text \<open>
  A diamond of four tasks and one of its traces with two workers, in which \<open>B\<close> and \<open>C\<close>
  overlap.
\<close>

definition task_A :: SwarmTask where "task_A = new_SwarmTask ''A'' [] ''coder'' []"

definition task_B :: SwarmTask where "task_B = new_SwarmTask ''B'' [] ''coder'' [''A'']"

definition task_C :: SwarmTask where "task_C = new_SwarmTask ''C'' [] ''coder'' [''A'']"

definition task_D :: SwarmTask where "task_D = new_SwarmTask ''D'' [] ''coder'' [''B'', ''C'']"

definition diamond_tasks :: "SwarmTask list" where
  "diamond_tasks = [task_A, task_B, task_C, task_D]"

lemmas diamond_defs = diamond_tasks_def task_A_def task_B_def task_C_def task_D_def new_SwarmTask_def

definition diamond_trace :: "event list" where
  "diamond_trace =
     [Start ''A'', Finish ''A'' True, Start ''B'', Start ''C'', Finish ''C'' True,
      Finish ''B'' True, Start ''D'', Finish ''D'' True]"

lemma diamond_levels:
  "build_execution_order diamond_tasks =
     Inr [[task_A], [task_B, task_C], [task_D]]"
  by code_simp

lemma diamond_engine_run:
  "engine_run 2 execute_single_task
     [[task_A], [task_B, task_C], [task_D]]
     diamond_trace"
proof -
  let ?ex = execute_single_task
  let ?A = task_A and ?B = task_B and ?C = task_C and ?D = task_D
  have ne: "?C \<noteq> ?B" by (simp add: diamond_defs)
  have a1: "level_run 2 ?ex [] [?A] [Finish (sw_task_id ?A) (succeeds ?ex ?A)]"
    by (rule level_finish) (simp_all add: level_done)
  have a2: "level_run 2 ?ex [?A] [] [Start (sw_task_id ?A), Finish (sw_task_id ?A) (succeeds ?ex ?A)]"
    by (rule level_start) (simp_all add: a1)
  have b1: "level_run 2 ?ex [] [?B] [Finish (sw_task_id ?B) (succeeds ?ex ?B)]"
    by (rule level_finish) (simp_all add: level_done)
  have b2: "level_run 2 ?ex [] [?B, ?C]
      [Finish (sw_task_id ?C) (succeeds ?ex ?C), Finish (sw_task_id ?B) (succeeds ?ex ?B)]"
    by (rule level_finish) (simp_all add: b1 ne)
  have b3: "level_run 2 ?ex [?C] [?B]
      [Start (sw_task_id ?C), Finish (sw_task_id ?C) (succeeds ?ex ?C),
       Finish (sw_task_id ?B) (succeeds ?ex ?B)]"
    by (rule level_start) (simp_all add: b2)
  have b4: "level_run 2 ?ex [?B, ?C] []
      [Start (sw_task_id ?B), Start (sw_task_id ?C), Finish (sw_task_id ?C) (succeeds ?ex ?C),
       Finish (sw_task_id ?B) (succeeds ?ex ?B)]"
    by (rule level_start) (simp_all add: b3)
  have d1: "level_run 2 ?ex [] [?D] [Finish (sw_task_id ?D) (succeeds ?ex ?D)]"
    by (rule level_finish) (simp_all add: level_done)
  have d2: "level_run 2 ?ex [?D] [] [Start (sw_task_id ?D), Finish (sw_task_id ?D) (succeeds ?ex ?D)]"
    by (rule level_start) (simp_all add: d1)
  from engine_level[OF a2 engine_level[OF b4 engine_level[OF d2 engine_done]]]
  show ?thesis
    by (simp add: diamond_trace_def diamond_defs succeeds_def execute_single_task_def)
qed

text \<open>
  The theorem at that trace: \<open>D\<close> starts at position 6, after \<open>B\<close> of the level before
  and after its transitive dependency \<open>A\<close> have ended.
\<close>

theorem levels_run_in_order_witness:
  "engine_run 2 execute_single_task
     [[task_A], [task_B, task_C], [task_D]]
     diamond_trace \<and>
   diamond_trace ! 6 = Start ''D'' \<and>
   (\<exists>i<6. diamond_trace ! i = Finish ''B'' True) \<and>
   (\<exists>i<6. \<exists>b. diamond_trace ! i = Finish ''A'' b)"
proof -
  let ?levels = "[[task_A], [task_B, task_C], [task_D]]"
  let ?B = task_B and ?D = task_D
  have h: "build_execution_order diamond_tasks = Inr ?levels \<and>
      engine_run 2 execute_single_task ?levels diamond_trace"
    using diamond_levels diamond_engine_run by simp
  note th = levels_run_in_order[where tasks = diamond_tasks and levels = ?levels and w = 2
      and exec = execute_single_task and tr = diamond_trace, THEN mp, OF h]
  have s: "diamond_trace ! 6 = Start ''D''" by (simp add: diamond_trace_def)
  have idD: "sw_task_id ?D = ''D''" and idB: "sw_task_id ?B = ''B''"
    by (simp_all add: diamond_defs)
  have okB: "succeeds execute_single_task ?B" by (simp add: succeeds_def execute_single_task_def)
  have "(1::nat) < 2 \<and> 2 < length ?levels \<and> ?D \<in> set (?levels ! 2) \<and> ?B \<in> set (?levels ! 1) \<and>
         6 < length diamond_trace \<and> diamond_trace ! 6 = Start (sw_task_id ?D)"
    by (simp add: s idD) (simp add: diamond_trace_def)
  with th[THEN conjunct1, rule_format, of 1 2 ?D ?B 6]
  have 1: "\<exists>i<6. diamond_trace ! i = Finish ''B'' True"
    by (simp only: idB okB simp_thms)
  have "(''D'', ''B'') \<in> dep_rel_wr diamond_tasks" "(''B'', ''A'') \<in> dep_rel_wr diamond_tasks"
    by (simp_all add: dep_rel_wr_def diamond_defs task_map_of_def py_setitem_def)
  then have "(''D'', ''A'') \<in> (dep_rel_wr diamond_tasks)\<^sup>+"
    by (rule trancl_into_trancl[OF r_into_trancl])
  then have "2 < length ?levels \<and> ?D \<in> set (?levels ! 2) \<and>
         (sw_task_id ?D, ''A'') \<in> (dep_rel_wr diamond_tasks)\<^sup>+ \<and>
         6 < length diamond_trace \<and> diamond_trace ! 6 = Start (sw_task_id ?D)"
    by (simp add: s idD) (simp add: diamond_trace_def)
  with th[THEN conjunct2, THEN conjunct1, rule_format, of 2 ?D "''A''" 6]
  have 2: "\<exists>i<6. \<exists>b. diamond_trace ! i = Finish ''A'' b" by blast
  from diamond_engine_run s 1 2 show ?thesis by (intro conjI)
qed

section \<open>Claims about failed tasks\<close>
























end
